theory Spec2Isabelle
  imports Main "HOL-Library.Multiset" "HOL-Library.List_Lexorder" "HOL-Library.Product_Lexorder"
begin

section \<open>Cards\<close>

text \<open>
  Modelled from the spec: the \<open>Card\<close> type of the cards module, which the evaluator and
  the game engine import. A card is an immutable value with an id (a string, unique within
  a game), one of four suits and a rank in 2..14 (14 is the ace). The rank is a JavaScript
  number; every number the evaluator computes from ranks in 2..14 is an integer far below
  \<open>2^53\<close>, so \<open>int\<close> arithmetic is exact for it. The field \<open>id\<close> is named \<open>card_id\<close>.
\<close>

datatype Suit = Hearts | Diamonds | Clubs | Spades

record Card =
  card_id :: string
  suit :: Suit
  rank :: int

definition valid_card :: "Card \<Rightarrow> bool" where
  "valid_card c = (2 \<le> rank c \<and> rank c \<le> 14)"

section \<open>Errors and array reads\<close>

text \<open>
  \<open>HandSizeError\<close> is \<open>Error("Hand must have exactly 5 cards")\<close>, \<open>TooFewCards\<close> is
  \<open>Error("Need at least 5 cards to evaluate")\<close>, \<open>PlayerCountError\<close> is
  \<open>Error("Game requires 2-5 players")\<close>. \<open>TypeError\<close> is what JavaScript raises when a
  property is read from \<open>undefined\<close> or \<open>null\<close>, which is what an array read out of range
  or a null hand gives.
\<close>

datatype error = HandSizeError | TooFewCards | PlayerCountError | TypeError

definition bindE :: "error + 'a \<Rightarrow> ('a \<Rightarrow> error + 'b) \<Rightarrow> error + 'b" where
  "bindE m f = (case m of Inl e \<Rightarrow> Inl e | Inr x \<Rightarrow> f x)"

definition nth_opt :: "'a list \<Rightarrow> nat \<Rightarrow> 'a option" where
  "nth_opt xs i = (if i < length xs then Some (xs ! i) else None)"

text \<open>\<open>at xs i\<close> is \<open>xs[i]\<close> followed by a property read: out of range it raises.\<close>

definition at :: "'a list \<Rightarrow> nat \<Rightarrow> error + 'a" where
  "at xs i = (case nth_opt xs i of None \<Rightarrow> Inl TypeError | Some x \<Rightarrow> Inr x)"

text \<open>
  \<open>Array.prototype.sort\<close> with a comparator is stable; it is modelled by a stable insertion
  sort, where \<open>x\<close> stays in front of \<open>y\<close> when \<open>cmp x y \<le> 0\<close>.
\<close>

fun insert_sorted :: "('a \<Rightarrow> 'a \<Rightarrow> int) \<Rightarrow> 'a \<Rightarrow> 'a list \<Rightarrow> 'a list" where
  "insert_sorted cmp x [] = [x]"
| "insert_sorted cmp x (y # ys) =
     (if cmp x y \<le> 0 then x # y # ys else y # insert_sorted cmp x ys)"

definition array_sort :: "('a \<Rightarrow> 'a \<Rightarrow> int) \<Rightarrow> 'a list \<Rightarrow> 'a list" where
  "array_sort cmp xs = foldr (insert_sorted cmp) xs []"

section \<open>Hand evaluator\<close>

datatype HandRank =
  StraightFlush | FourOfAKind | FullHouse | Flush | Straight
  | ThreeOfAKind | TwoPair | OnePair | HighCard

fun HAND_RANK_VALUES :: "HandRank \<Rightarrow> int" where
  "HAND_RANK_VALUES StraightFlush = 8"
| "HAND_RANK_VALUES FourOfAKind = 7"
| "HAND_RANK_VALUES FullHouse = 6"
| "HAND_RANK_VALUES Flush = 5"
| "HAND_RANK_VALUES Straight = 4"
| "HAND_RANK_VALUES ThreeOfAKind = 3"
| "HAND_RANK_VALUES TwoPair = 2"
| "HAND_RANK_VALUES OnePair = 1"
| "HAND_RANK_VALUES HighCard = 0"

text \<open>The field \<open>rank\<close> of a hand result is named \<open>hand_rank\<close>.\<close>

record HandResult =
  hand_rank :: HandRank
  cards :: "Card list"
  kickers :: "int list"
  strength :: int

text \<open>
  The \<open>Map\<close> of rank counts keeps its keys in insertion order: an association list, where
  \<open>map_set\<close> overwrites the value of a key in place and appends a new key.
\<close>

fun map_set :: "('k \<times> 'v) list \<Rightarrow> 'k \<Rightarrow> 'v \<Rightarrow> ('k \<times> 'v) list" where
  "map_set [] k v = [(k, v)]"
| "map_set ((k', v') # m) k v =
     (if k' = k then (k, v) # m else (k', v') # map_set m k v)"

definition getRankCounts :: "Card list \<Rightarrow> (int \<times> int) list" where
  "getRankCounts cs =
     fold (\<lambda>card counts.
        map_set counts (rank card)
          ((case map_of counts (rank card) of None \<Rightarrow> 0 | Some n \<Rightarrow> n) + 1)) cs []"

definition isFlush :: "Card list \<Rightarrow> error + bool" where
  "isFlush cs = bindE (at cs 0) (\<lambda>c0. Inr (list_all (\<lambda>c. suit c = suit c0) cs))"

text \<open>The loop of \<open>isStraight\<close> over neighbouring ranks.\<close>

fun consecutive :: "int list \<Rightarrow> bool" where
  "consecutive (a # b # rest) = (if b \<noteq> a + 1 then False else consecutive (b # rest))"
| "consecutive _ = True"

text \<open>
  The reads \<open>ranks[0..4]\<close> of the wheel test compare \<open>undefined\<close> with a number out of
  range, which is false. The last read \<open>ranks[4]\<close> would return \<open>undefined\<close> as the high
  card on a shorter list; the model raises there.
\<close>

definition isStraight :: "Card list \<Rightarrow> error + (bool \<times> int)" where
  "isStraight cs =
     (let ranks = array_sort (\<lambda>a b. a - b) (map rank cs) in
      if nth_opt ranks 0 = Some 2 \<and> nth_opt ranks 1 = Some 3 \<and> nth_opt ranks 2 = Some 4
         \<and> nth_opt ranks 3 = Some 5 \<and> nth_opt ranks 4 = Some 14
      then Inr (True, 5)
      else if \<not> consecutive ranks then Inr (False, 0)
      else bindE (at ranks 4) (\<lambda>h. Inr (True, h)))"

function strength_loop :: "int list \<Rightarrow> nat \<Rightarrow> int \<Rightarrow> int" where
  "strength_loop ks i s =
     (if i < length ks \<and> i < 5 then strength_loop ks (i + 1) (s + ks ! i * 15 ^ (4 - i))
      else s)"
  by pat_completeness auto
termination
  by (relation "measure (\<lambda>(ks, i, s). 5 - i)") auto

declare strength_loop.simps [simp del]

definition calculateStrength :: "HandRank \<Rightarrow> int list \<Rightarrow> int" where
  "calculateStrength handRank ks = strength_loop ks 0 (HAND_RANK_VALUES handRank * 10000000000)"

text \<open>The comparator of the count groups: by count descending, then by rank descending.\<close>

definition entry_cmp :: "int \<times> int \<Rightarrow> int \<times> int \<Rightarrow> int" where
  "entry_cmp a b = (if snd b \<noteq> snd a then snd b - snd a else fst b - fst a)"

definition evaluateHand :: "Card list \<Rightarrow> error + HandResult" where
  "evaluateHand cs =
    (if length cs \<noteq> 5 then Inl HandSizeError
     else
      let counts = array_sort entry_cmp (getRankCounts cs) in
      bindE (isFlush cs) (\<lambda>flush.
      bindE (isStraight cs) (\<lambda>straight.
      if flush \<and> fst straight then
        Inr \<lparr>hand_rank = StraightFlush, cards = cs, kickers = [snd straight],
             strength = calculateStrength StraightFlush [snd straight]\<rparr>
      else
      bindE (at counts 0) (\<lambda>c0.
      if snd c0 = 4 then
        bindE (at counts 1) (\<lambda>c1.
          Inr \<lparr>hand_rank = FourOfAKind, cards = cs, kickers = [fst c0, fst c1],
               strength = calculateStrength FourOfAKind [fst c0, fst c1]\<rparr>)
      else
      bindE (if snd c0 = 3 then bindE (at counts 1) (\<lambda>c1. Inr (snd c1 = 2)) else Inr False)
        (\<lambda>fullHouse.
      if fullHouse then
        bindE (at counts 1) (\<lambda>c1.
          Inr \<lparr>hand_rank = FullHouse, cards = cs, kickers = [fst c0, fst c1],
               strength = calculateStrength FullHouse [fst c0, fst c1]\<rparr>)
      else if flush then
        (let ks = array_sort (\<lambda>a b. b - a) (map rank cs) in
          Inr \<lparr>hand_rank = Flush, cards = cs, kickers = ks,
               strength = calculateStrength Flush ks\<rparr>)
      else if fst straight then
        Inr \<lparr>hand_rank = Straight, cards = cs, kickers = [snd straight],
             strength = calculateStrength Straight [snd straight]\<rparr>
      else if snd c0 = 3 then
        bindE (at counts 1) (\<lambda>c1. bindE (at counts 2) (\<lambda>c2.
          let ks = [fst c0, fst c1, fst c2] in
          Inr \<lparr>hand_rank = ThreeOfAKind, cards = cs, kickers = ks,
               strength = calculateStrength ThreeOfAKind ks\<rparr>))
      else
      bindE (if snd c0 = 2 then bindE (at counts 1) (\<lambda>c1. Inr (snd c1 = 2)) else Inr False)
        (\<lambda>twoPair.
      if twoPair then
        bindE (at counts 1) (\<lambda>c1.
          let highPair = max (fst c0) (fst c1); lowPair = min (fst c0) (fst c1) in
          bindE (at counts 2) (\<lambda>c2.
            Inr \<lparr>hand_rank = TwoPair, cards = cs, kickers = [highPair, lowPair, fst c2],
                 strength = calculateStrength TwoPair [highPair, lowPair, fst c2]\<rparr>))
      else if snd c0 = 2 then
        bindE (at counts 1) (\<lambda>c1. bindE (at counts 2) (\<lambda>c2. bindE (at counts 3) (\<lambda>c3.
          let ks = [fst c0, fst c1, fst c2, fst c3] in
          Inr \<lparr>hand_rank = OnePair, cards = cs, kickers = ks,
               strength = calculateStrength OnePair ks\<rparr>)))
      else
        (let ks = array_sort (\<lambda>a b. b - a) (map rank cs) in
          Inr \<lparr>hand_rank = HighCard, cards = cs, kickers = ks,
               strength = calculateStrength HighCard ks\<rparr>)))))))"

text \<open>
  \<open>combinations\<close>: \<open>backtrack\<close> is called with the part of the array from \<open>start\<close> on and
  the current selection; \<open>backtrack_loop\<close> is its \<open>for\<close> loop. The value is the list of
  selections pushed to \<open>result\<close>, in the order of the pushes.
\<close>

fun backtrack :: "nat \<Rightarrow> 'a list \<Rightarrow> 'a list \<Rightarrow> 'a list list"
  and backtrack_loop :: "nat \<Rightarrow> 'a list \<Rightarrow> 'a list \<Rightarrow> 'a list list" where
  "backtrack k rest current =
     (if length current = k then [current] else backtrack_loop k rest current)"
| "backtrack_loop k [] current = []"
| "backtrack_loop k (x # rest) current =
     backtrack k rest (current @ [x]) @ backtrack_loop k rest current"

definition combinations :: "'a list \<Rightarrow> nat \<Rightarrow> 'a list list" where
  "combinations array k = backtrack k array []"

text \<open>The loop of \<open>findBestHand\<close> over the combinations; \<open>None\<close> is the initial \<open>null\<close>.\<close>

fun best_loop :: "Card list list \<Rightarrow> HandResult option \<Rightarrow> error + HandResult option" where
  "best_loop [] bestHand = Inr bestHand"
| "best_loop (combo # rest) bestHand =
     bindE (evaluateHand combo) (\<lambda>hand.
       best_loop rest
         (case bestHand of
            None \<Rightarrow> Some hand
          | Some b \<Rightarrow> if strength hand > strength b then Some hand else Some b))"

text \<open>
  \<open>findBestHand\<close> returns \<open>bestHand!\<close>; the assertion is erased at run time, so a \<open>null\<close>
  would be returned as it is: the result is an optional hand.
\<close>

definition findBestHand :: "Card list \<Rightarrow> error + HandResult option" where
  "findBestHand cs =
     (if length cs < 5 then Inl TooFewCards
      else if length cs = 5 then bindE (evaluateHand cs) (\<lambda>h. Inr (Some h))
      else best_loop (combinations cs 5) None)"

section \<open>Game engine\<close>

datatype Difficulty = Normal | Hard | Hell | Nightmare

text \<open>
  The fields \<open>holeCards\<close> and \<open>doorCards\<close> of a difficulty configuration; its \<open>name\<close> and
  \<open>description\<close> are display strings that no function reads.
\<close>

record DifficultyConfig =
  cfg_holeCards :: nat
  cfg_doorCards :: nat

fun DIFFICULTY_CONFIGS :: "Difficulty \<Rightarrow> DifficultyConfig" where
  "DIFFICULTY_CONFIGS Normal = \<lparr>cfg_holeCards = 5, cfg_doorCards = 5\<rparr>"
| "DIFFICULTY_CONFIGS Hard = \<lparr>cfg_holeCards = 4, cfg_doorCards = 6\<rparr>"
| "DIFFICULTY_CONFIGS Hell = \<lparr>cfg_holeCards = 2, cfg_doorCards = 8\<rparr>"
| "DIFFICULTY_CONFIGS Nightmare = \<lparr>cfg_holeCards = 0, cfg_doorCards = 5\<rparr>"

text \<open>The field \<open>id\<close> of a player is named \<open>player_id\<close>.\<close>

record Player =
  player_id :: int
  name :: string
  doorCards :: "Card list"
  holeCards :: "Card list"
  revealedHoleCards :: "Card list"

datatype Phase = Dealing | Revealing | Showdown | Finished

text \<open>The fields \<open>round\<close> and \<open>cards\<close> of an event are named \<open>event_round\<close>, \<open>event_cards\<close>.\<close>

record RevealEvent =
  event_round :: int
  playerIds :: "int list"
  event_cards :: "(int \<times> Card) list"

record GameState =
  players :: "Player list"
  deadCards :: "Card list"
  phase :: Phase
  currentRound :: int
  revealHistory :: "RevealEvent list"
  winner :: "Player list option"
  waitingForPlayers :: "int list"

definition getRevealedCards :: "Player \<Rightarrow> Card list" where
  "getRevealedCards player = doorCards player @ revealedHoleCards player"

definition getAllCards :: "Player \<Rightarrow> Card list" where
  "getAllCards player = doorCards player @ revealedHoleCards player @ holeCards player"

definition getCurrentStrength :: "Player \<Rightarrow> error + HandResult option" where
  "getCurrentStrength player = findBestHand (getRevealedCards player)"

definition getFinalStrength :: "Player \<Rightarrow> error + HandResult option" where
  "getFinalStrength player = findBestHand (getAllCards player)"

text \<open>\<open>deck.slice(a, b)\<close> for \<open>0 \<le> a \<le> b\<close>.\<close>

definition slice :: "'a list \<Rightarrow> nat \<Rightarrow> nat \<Rightarrow> 'a list" where
  "slice xs a b = drop a (take b xs)"

text \<open>
  The dealing loop of \<open>initializeGame\<close>, from seat \<open>i\<close> on: the remaining names, the
  card index and the players pushed so far. It returns the players and the final index.
\<close>

fun deal_loop ::
  "Card list \<Rightarrow> DifficultyConfig \<Rightarrow> DifficultyConfig \<Rightarrow> string list \<Rightarrow> nat \<Rightarrow> nat
     \<Rightarrow> Player list \<Rightarrow> Player list \<times> nat" where
  "deal_loop deck playerConfig normalConfig [] i cardIndex ps = (ps, cardIndex)"
| "deal_loop deck playerConfig normalConfig (nm # names) i cardIndex ps =
     (let config = (if i = 0 then playerConfig else normalConfig);
          door = slice deck cardIndex (cardIndex + cfg_doorCards config);
          cardIndex1 = cardIndex + cfg_doorCards config;
          hole = slice deck cardIndex1 (cardIndex1 + cfg_holeCards config);
          cardIndex2 = cardIndex1 + cfg_holeCards config
      in deal_loop deck playerConfig normalConfig names (i + 1) cardIndex2
           (ps @ [\<lparr>player_id = int i, name = nm, doorCards = door, holeCards = hole,
                   revealedHoleCards = []\<rparr>]))"

text \<open>
  \<open>initializeGame\<close> takes the shuffled deck \<open>shuffleDeck(createDeck())\<close> as a parameter: the
  cards module is not part of the sources, and the shuffle is random.
\<close>

definition initializeGame :: "Card list \<Rightarrow> string list \<Rightarrow> Difficulty \<Rightarrow> error + GameState" where
  "initializeGame deck playerNames difficulty =
     (let playerCount = length playerNames in
      if playerCount < 2 \<or> playerCount > 5 then Inl PlayerCountError
      else
        let playerConfig = DIFFICULTY_CONFIGS difficulty;
            normalConfig = DIFFICULTY_CONFIGS Normal;
            (ps, cardIndex) = deal_loop deck playerConfig normalConfig playerNames 0 0 []
        in Inr \<lparr>players = ps, deadCards = drop cardIndex deck, phase = Revealing,
                currentRound = 0, revealHistory = [], winner = None,
                waitingForPlayers = []\<rparr>)"

text \<open>
  Modelled from the spec: the deck that \<open>createDeck\<close> and \<open>shuffleDeck\<close> of the missing cards
  module produce, in any order: 52 cards, pairwise distinct in id and in (suit, rank),
  with ranks in 2..14.
\<close>

definition is_deck :: "Card list \<Rightarrow> bool" where
  "is_deck deck =
     (length deck = 52 \<and> distinct (map card_id deck)
      \<and> distinct (map (\<lambda>c. (suit c, rank c)) deck) \<and> list_all valid_card deck)"

text \<open>\<open>map\<close> and \<open>filter\<close> with a callback that may raise: the first error ends the loop.\<close>

fun mapE :: "('a \<Rightarrow> error + 'b) \<Rightarrow> 'a list \<Rightarrow> error + 'b list" where
  "mapE f [] = Inr []"
| "mapE f (x # xs) = bindE (f x) (\<lambda>y. bindE (mapE f xs) (\<lambda>ys. Inr (y # ys)))"

fun filterE :: "('a \<Rightarrow> error + bool) \<Rightarrow> 'a list \<Rightarrow> error + 'a list" where
  "filterE f [] = Inr []"
| "filterE f (x # xs) =
     bindE (f x) (\<lambda>b. bindE (filterE f xs) (\<lambda>ys. Inr (if b then x # ys else ys)))"

text \<open>\<open>s.strength.strength\<close>, where the hand \<open>s.strength\<close> may be \<open>null\<close>.\<close>

definition hand_strength :: "Player \<times> HandResult option \<Rightarrow> error + int" where
  "hand_strength s = (case snd s of None \<Rightarrow> Inl TypeError | Some h \<Rightarrow> Inr (strength h))"

fun min_loop :: "(Player \<times> HandResult option) list \<Rightarrow> int \<Rightarrow> error + int" where
  "min_loop [] minStrength = Inr minStrength"
| "min_loop (s # rest) minStrength =
     bindE (hand_strength s) (\<lambda>v. min_loop rest (if v < minStrength then v else minStrength))"

definition findWeakestPlayers :: "Player list \<Rightarrow> error + Player list" where
  "findWeakestPlayers ps =
     (let playersWithHoleCards = filter (\<lambda>p. length (holeCards p) > 0) ps in
      if length playersWithHoleCards = 0 then Inr []
      else
        bindE (mapE (\<lambda>p. bindE (getCurrentStrength p) (\<lambda>h. Inr (p, h))) playersWithHoleCards)
          (\<lambda>strengths.
        bindE (at strengths 0) (\<lambda>s0.
        bindE (hand_strength s0) (\<lambda>first.
        bindE (min_loop strengths first) (\<lambda>minStrength.
        bindE (filterE (\<lambda>s. bindE (hand_strength s) (\<lambda>v. Inr (v = minStrength))) strengths)
          (\<lambda>weakest. Inr (map fst weakest)))))))"

definition startRevealRound :: "GameState \<Rightarrow> error + GameState" where
  "startRevealRound state =
     (if phase state \<noteq> Revealing then Inr state
      else
        bindE (findWeakestPlayers (players state)) (\<lambda>weakestPlayers.
          if length weakestPlayers = 0
          then Inr (state\<lparr>phase := Showdown, waitingForPlayers := []\<rparr>)
          else Inr (state\<lparr>waitingForPlayers := map player_id weakestPlayers\<rparr>)))"

text \<open>\<open>findIndex\<close>: \<open>None\<close> is the result \<open>-1\<close>.\<close>

fun findIndex :: "('a \<Rightarrow> bool) \<Rightarrow> 'a list \<Rightarrow> nat option" where
  "findIndex P [] = None"
| "findIndex P (x # xs) = (if P x then Some 0 else map_option Suc (findIndex P xs))"

text \<open>
  \<open>revealSelectedCard\<close> reads \<open>state.players[playerIndex]\<close> and
  \<open>player.holeCards[cardIndex]\<close>; the model raises where a read is out of range. The
  variable \<open>card\<close> is written \<open>crd\<close>.
\<close>

definition revealSelectedCard :: "GameState \<Rightarrow> int \<Rightarrow> string \<Rightarrow> error + GameState" where
  "revealSelectedCard state playerId cardId =
     (if phase state \<noteq> Revealing then Inr state
      else if playerId \<notin> set (waitingForPlayers state) then Inr state
      else
        case findIndex (\<lambda>p. player_id p = playerId) (players state) of
          None \<Rightarrow> Inr state
        | Some playerIndex \<Rightarrow>
            bindE (at (players state) playerIndex) (\<lambda>player.
              case findIndex (\<lambda>c. card_id c = cardId) (holeCards player) of
                None \<Rightarrow> Inr state
              | Some cardIndex \<Rightarrow>
                  bindE (at (holeCards player) cardIndex) (\<lambda>crd.
                    let newHoleCards = filter (\<lambda>c. card_id c \<noteq> cardId) (holeCards player);
                        newRevealedHoleCards = revealedHoleCards player @ [crd];
                        newPlayers = (players state)[playerIndex :=
                          player\<lparr>holeCards := newHoleCards,
                                 revealedHoleCards := newRevealedHoleCards\<rparr>];
                        newWaitingForPlayers =
                          filter (\<lambda>i. i \<noteq> playerId) (waitingForPlayers state);
                        existingEvent =
                          find (\<lambda>e. event_round e = currentRound state) (revealHistory state);
                        newRevealHistory =
                          (case existingEvent of
                             Some _ \<Rightarrow>
                               map (\<lambda>e. if event_round e = currentRound state
                                         then e\<lparr>playerIds := playerIds e @ [playerId],
                                                event_cards := event_cards e @ [(playerId, crd)]\<rparr>
                                         else e) (revealHistory state)
                           | None \<Rightarrow>
                               revealHistory state @
                                 [\<lparr>event_round = currentRound state, playerIds = [playerId],
                                   event_cards = [(playerId, crd)]\<rparr>])
                    in
                    if length newWaitingForPlayers = 0 then
                      (let allRevealed = list_all (\<lambda>p. length (holeCards p) = 0) newPlayers in
                       Inr (state\<lparr>players := newPlayers, revealHistory := newRevealHistory,
                                  waitingForPlayers := [],
                                  currentRound := currentRound state + 1,
                                  phase := (if allRevealed then Showdown else Revealing)\<rparr>))
                    else
                      Inr (state\<lparr>players := newPlayers, revealHistory := newRevealHistory,
                                 waitingForPlayers := newWaitingForPlayers\<rparr>))))"

text \<open>
  The callback of \<open>state.players.map\<close> in \<open>processRevealRound\<close>: the new player, and what it
  pushes to \<open>revealedCards\<close>.
\<close>

definition reveal_first :: "Player list \<Rightarrow> Player \<Rightarrow> Player \<times> (int \<times> Card) list" where
  "reveal_first weakestPlayers player =
     (if list_ex (\<lambda>wp. player_id wp = player_id player) weakestPlayers then
        (case holeCards player of
           [] \<Rightarrow> (player, [])
         | crd # rest \<Rightarrow>
             (player\<lparr>holeCards := rest,
                     revealedHoleCards := revealedHoleCards player @ [crd]\<rparr>,
              [(player_id player, crd)]))
      else (player, []))"

definition processRevealRound :: "GameState \<Rightarrow> error + GameState" where
  "processRevealRound state =
     (if phase state \<noteq> Revealing then Inr state
      else
        bindE (findWeakestPlayers (players state)) (\<lambda>weakestPlayers.
          if length weakestPlayers = 0 then Inr (state\<lparr>phase := Showdown\<rparr>)
          else
            let newPlayers = map (\<lambda>p. fst (reveal_first weakestPlayers p)) (players state);
                revealedCards =
                  concat (map (\<lambda>p. snd (reveal_first weakestPlayers p)) (players state));
                event = \<lparr>event_round = currentRound state,
                         playerIds = map player_id weakestPlayers,
                         event_cards = revealedCards\<rparr>;
                allRevealed = list_all (\<lambda>p. length (holeCards p) = 0) newPlayers
            in Inr (state\<lparr>players := newPlayers, currentRound := currentRound state + 1,
                          revealHistory := revealHistory state @ [event],
                          phase := (if allRevealed then Showdown else Revealing),
                          waitingForPlayers := []\<rparr>)))"

fun max_loop :: "(Player \<times> HandResult option) list \<Rightarrow> int \<Rightarrow> error + int" where
  "max_loop [] maxStrength = Inr maxStrength"
| "max_loop (s # rest) maxStrength =
     bindE (hand_strength s) (\<lambda>v. max_loop rest (if v > maxStrength then v else maxStrength))"

definition determineWinner :: "GameState \<Rightarrow> error + GameState" where
  "determineWinner state =
     (if phase state \<noteq> Showdown then Inr state
      else
        bindE (mapE (\<lambda>p. bindE (getFinalStrength p) (\<lambda>h. Inr (p, h))) (players state))
          (\<lambda>finalStrengths.
        bindE (at finalStrengths 0) (\<lambda>s0.
        bindE (hand_strength s0) (\<lambda>first.
        bindE (max_loop finalStrengths first) (\<lambda>maxStrength.
        bindE (filterE (\<lambda>s. bindE (hand_strength s) (\<lambda>v. Inr (v = maxStrength)))
                 finalStrengths)
          (\<lambda>winners. Inr (state\<lparr>phase := Finished, winner := Some (map fst winners)\<rparr>)))))))"

text \<open>The \<open>while\<close> loop of \<open>runFullGame\<close>; its termination is proved below.\<close>

function reveal_rounds :: "GameState \<Rightarrow> error + GameState" where
  "reveal_rounds state =
     (if phase state = Revealing then
        (case processRevealRound state of
           Inl e \<Rightarrow> Inl e
         | Inr state' \<Rightarrow> reveal_rounds state')
      else Inr state)"
  by pat_completeness auto

definition total_hole :: "GameState \<Rightarrow> nat" where
  "total_hole state = sum_list (map (\<lambda>p. length (holeCards p)) (players state))"

definition runFullGame :: "GameState \<Rightarrow> error + GameState" where
  "runFullGame state =
     bindE (reveal_rounds state) (\<lambda>currentState.
       if phase currentState = Showdown then determineWinner currentState
       else Inr currentState)"

section \<open>Auxiliary notions for the proofs\<close>

text \<open>One step of the counting loop of \<open>getRankCounts\<close>, and the count a map holds.\<close>

definition bump :: "(int \<times> int) list \<Rightarrow> int \<Rightarrow> (int \<times> int) list" where
  "bump m r = map_set m r ((case map_of m r of None \<Rightarrow> 0 | Some n \<Rightarrow> n) + 1)"

definition cnt :: "(int \<times> int) list \<Rightarrow> int \<Rightarrow> int" where
  "cnt m r = (case map_of m r of None \<Rightarrow> 0 | Some n \<Rightarrow> n)"

text \<open>A sort key with the order of \<open>entry_cmp\<close>.\<close>

definition entry_key :: "int \<times> int \<Rightarrow> int \<times> int" where
  "entry_key e = (- snd e, - fst e)"

text \<open>The number of kickers of each category.\<close>

fun kicker_count :: "HandRank \<Rightarrow> nat" where
  "kicker_count StraightFlush = 1"
| "kicker_count FourOfAKind = 2"
| "kicker_count FullHouse = 2"
| "kicker_count Flush = 5"
| "kicker_count Straight = 1"
| "kicker_count ThreeOfAKind = 3"
| "kicker_count TwoPair = 3"
| "kicker_count OnePair = 4"
| "kicker_count HighCard = 5"

text \<open>
  The value of a kicker list as the loop of \<open>calculateStrength\<close> adds it up: the first
  kicker weighs \<open>15 ^ n\<close>, the next \<open>15 ^ (n - 1)\<close>, down to weight 1.
\<close>

fun kick_value :: "nat \<Rightarrow> int list \<Rightarrow> int" where
  "kick_value n [] = 0"
| "kick_value 0 (k # ks) = k"
| "kick_value (Suc n) (k # ks) = k * 15 ^ Suc n + kick_value n ks"

text \<open>
  The category precedence as the spec words it, strongest first: straight-flush,
  four-of-a-kind, full house, flush, straight, three-of-a-kind, two-pair, one-pair,
  high-card. \<open>spec_higher_category a b\<close>: category \<open>a\<close> is strictly higher than \<open>b\<close>.
\<close>

fun spec_category_position :: "HandRank \<Rightarrow> nat" where
  "spec_category_position StraightFlush = 0"
| "spec_category_position FourOfAKind = 1"
| "spec_category_position FullHouse = 2"
| "spec_category_position Flush = 3"
| "spec_category_position Straight = 4"
| "spec_category_position ThreeOfAKind = 5"
| "spec_category_position TwoPair = 6"
| "spec_category_position OnePair = 7"
| "spec_category_position HighCard = 8"

definition spec_higher_category :: "HandRank \<Rightarrow> HandRank \<Rightarrow> bool" where
  "spec_higher_category a b = (spec_category_position a < spec_category_position b)"

text \<open>
  \<open>best_strength cs\<close> is the strength of the hand that \<open>findBestHand cs\<close> returns; it is
  only used where \<open>findBestHand\<close> returns a hand, which it does for five or more cards.
\<close>

definition best_strength :: "Card list \<Rightarrow> int" where
  "best_strength cs = (case findBestHand cs of Inr (Some h) \<Rightarrow> strength h | _ \<Rightarrow> 0)"

text \<open>
  Example states. In \<open>example_revealing\<close> seat 0 shows a pair of aces and seat 1 three
  twos; \<open>example_showdown\<close> is a showdown over the same cards, where seat 1 still holds
  its hole card. In \<open>short_handed\<close> and
  \<open>short_handed_showdown\<close> the only player has four cards to evaluate.
\<close>

definition example_revealing :: GameState where
  "example_revealing =
     \<lparr>players =
        [\<lparr>player_id = 0, name = ''north'',
          doorCards = [\<lparr>card_id = ''AH'', suit = Hearts, rank = 14\<rparr>,
                       \<lparr>card_id = ''AS'', suit = Spades, rank = 14\<rparr>,
                       \<lparr>card_id = ''9H'', suit = Hearts, rank = 9\<rparr>,
                       \<lparr>card_id = ''4C'', suit = Clubs, rank = 4\<rparr>,
                       \<lparr>card_id = ''3H'', suit = Hearts, rank = 3\<rparr>],
          holeCards = [\<lparr>card_id = ''KD'', suit = Diamonds, rank = 13\<rparr>],
          revealedHoleCards = []\<rparr>,
         \<lparr>player_id = 1, name = ''south'',
          doorCards = [\<lparr>card_id = ''2H'', suit = Hearts, rank = 2\<rparr>,
                       \<lparr>card_id = ''2S'', suit = Spades, rank = 2\<rparr>,
                       \<lparr>card_id = ''2C'', suit = Clubs, rank = 2\<rparr>,
                       \<lparr>card_id = ''KH'', suit = Hearts, rank = 13\<rparr>,
                       \<lparr>card_id = ''QD'', suit = Diamonds, rank = 12\<rparr>],
          holeCards = [\<lparr>card_id = ''7C'', suit = Clubs, rank = 7\<rparr>],
          revealedHoleCards = []\<rparr>],
      deadCards = [], phase = Revealing, currentRound = 0, revealHistory = [],
      winner = None, waitingForPlayers = []\<rparr>"

definition example_showdown :: GameState where
  "example_showdown =
     \<lparr>players =
        [\<lparr>player_id = 0, name = ''north'',
          doorCards = [\<lparr>card_id = ''AH'', suit = Hearts, rank = 14\<rparr>,
                       \<lparr>card_id = ''AS'', suit = Spades, rank = 14\<rparr>,
                       \<lparr>card_id = ''9H'', suit = Hearts, rank = 9\<rparr>,
                       \<lparr>card_id = ''4C'', suit = Clubs, rank = 4\<rparr>,
                       \<lparr>card_id = ''3H'', suit = Hearts, rank = 3\<rparr>],
          holeCards = [],
          revealedHoleCards = [\<lparr>card_id = ''KD'', suit = Diamonds, rank = 13\<rparr>]\<rparr>,
         \<lparr>player_id = 1, name = ''south'',
          doorCards = [\<lparr>card_id = ''2H'', suit = Hearts, rank = 2\<rparr>,
                       \<lparr>card_id = ''2S'', suit = Spades, rank = 2\<rparr>,
                       \<lparr>card_id = ''2C'', suit = Clubs, rank = 2\<rparr>,
                       \<lparr>card_id = ''KH'', suit = Hearts, rank = 13\<rparr>,
                       \<lparr>card_id = ''QD'', suit = Diamonds, rank = 12\<rparr>],
          holeCards = [\<lparr>card_id = ''7C'', suit = Clubs, rank = 7\<rparr>],
          revealedHoleCards = []\<rparr>],
      deadCards = [], phase = Showdown, currentRound = 1, revealHistory = [],
      winner = None, waitingForPlayers = []\<rparr>"

definition short_handed :: GameState where
  "short_handed =
     \<lparr>players =
        [\<lparr>player_id = 0, name = ''north'',
          doorCards = [\<lparr>card_id = ''AH'', suit = Hearts, rank = 14\<rparr>,
                       \<lparr>card_id = ''AS'', suit = Spades, rank = 14\<rparr>,
                       \<lparr>card_id = ''9H'', suit = Hearts, rank = 9\<rparr>,
                       \<lparr>card_id = ''4C'', suit = Clubs, rank = 4\<rparr>],
          holeCards = [\<lparr>card_id = ''KD'', suit = Diamonds, rank = 13\<rparr>],
          revealedHoleCards = []\<rparr>],
      deadCards = [], phase = Revealing, currentRound = 0, revealHistory = [],
      winner = None, waitingForPlayers = []\<rparr>"

definition short_handed_showdown :: GameState where
  "short_handed_showdown =
     \<lparr>players =
        [\<lparr>player_id = 0, name = ''north'',
          doorCards = [\<lparr>card_id = ''AH'', suit = Hearts, rank = 14\<rparr>,
                       \<lparr>card_id = ''AS'', suit = Spades, rank = 14\<rparr>,
                       \<lparr>card_id = ''9H'', suit = Hearts, rank = 9\<rparr>,
                       \<lparr>card_id = ''4C'', suit = Clubs, rank = 4\<rparr>],
          holeCards = [],
          revealedHoleCards = []\<rparr>],
      deadCards = [], phase = Showdown, currentRound = 0, revealHistory = [],
      winner = None, waitingForPlayers = []\<rparr>"

text \<open>A state whose players each show five door cards or more, as every deal gives.\<close>

definition ready :: "GameState \<Rightarrow> bool" where
  "ready s = (players s \<noteq> [] \<and> list_all (\<lambda>p. 5 \<le> length (doorCards p)) (players s))"

text \<open>An unshuffled deck, for the examples.\<close>

fun suit_letter :: "Suit \<Rightarrow> char" where
  "suit_letter Hearts = CHR ''H''"
| "suit_letter Diamonds = CHR ''D''"
| "suit_letter Clubs = CHR ''C''"
| "suit_letter Spades = CHR ''S''"

definition example_deck :: "Card list" where
  "example_deck =
     concat (map (\<lambda>s. map (\<lambda>r. \<lparr>card_id = [suit_letter s, ''23456789TJQKA'' ! nat (r - 2)],
                                   suit = s, rank = r\<rparr>) [2..14])
               [Hearts, Diamonds, Clubs, Spades])"

text \<open>
  The transition functions as actions, and the state a list of actions leads to: the
  states reachable from a state \<open>s\<close> are the \<open>s'\<close> with \<open>run_actions acts s = Inr s'\<close> for
  some \<open>acts\<close>. A transition that raises leads to no state.
\<close>

datatype action =
  StartRevealRound | RevealSelectedCard int string | ProcessRevealRound | DetermineWinner

fun step :: "action \<Rightarrow> GameState \<Rightarrow> error + GameState" where
  "step StartRevealRound s = startRevealRound s"
| "step (RevealSelectedCard playerId cardId) s = revealSelectedCard s playerId cardId"
| "step ProcessRevealRound s = processRevealRound s"
| "step DetermineWinner s = determineWinner s"

fun run_actions :: "action list \<Rightarrow> GameState \<Rightarrow> error + GameState" where
  "run_actions [] s = Inr s"
| "run_actions (a # as) s = bindE (step a s) (run_actions as)"

text \<open>
  \<open>moved p p'\<close>: the player is unchanged, or one of its hole cards, and only this one,
  has moved to the end of its revealed hole cards.
\<close>

definition moved :: "Player \<Rightarrow> Player \<Rightarrow> bool" where
  "moved p p' =
     (p' = p \<or> (\<exists>c\<in>set (holeCards p).
        p' = p\<lparr>holeCards := remove1 c (holeCards p),
               revealedHoleCards := revealedHoleCards p @ [c]\<rparr>))"

text \<open>
  \<open>same_deal s0 s\<close>: the states have the same seats, and every player of \<open>s\<close> has the door
  cards and, as a multiset, the cards it has in \<open>s0\<close>, with no card id twice.
\<close>

definition hand_ids :: "Player \<Rightarrow> string list" where
  "hand_ids p = map card_id (doorCards p @ holeCards p @ revealedHoleCards p)"

definition same_deal :: "GameState \<Rightarrow> GameState \<Rightarrow> bool" where
  "same_deal s0 s =
     (length (players s) = length (players s0)
      \<and> (\<forall>i<length (players s).
            doorCards (players s ! i) = doorCards (players s0 ! i)
            \<and> mset (doorCards (players s ! i) @ holeCards (players s ! i)
                      @ revealedHoleCards (players s ! i))
                = mset (doorCards (players s0 ! i) @ holeCards (players s0 ! i)
                      @ revealedHoleCards (players s0 ! i))
            \<and> distinct (hand_ids (players s ! i))))"

text \<open>\<open>rounds n s\<close>: the state after \<open>n\<close> calls of \<open>processRevealRound\<close> from \<open>s\<close>.\<close>

fun rounds :: "nat \<Rightarrow> GameState \<Rightarrow> error + GameState" where
  "rounds 0 s = Inr s"
| "rounds (Suc n) s = bindE (processRevealRound s) (rounds n)"

text \<open>A ready state that, in phase revealing, has a hole card left.\<close>

definition live :: "GameState \<Rightarrow> bool" where
  "live s = (ready s \<and> (phase s = Revealing \<longrightarrow> (\<exists>p\<in>set (players s). holeCards p \<noteq> [])))"

section \<open>Errors, reads and sorting\<close>

lemma bindE_simps [simp]:
  "bindE (Inr x) f = f x" "bindE (Inl e) f = Inl e"
  by (simp_all add: bindE_def)

lemma bindE_eq_Inr: "bindE m f = Inr y \<longleftrightarrow> (\<exists>x. m = Inr x \<and> f x = Inr y)"
  by (cases m) simp_all

lemma at_Inr: "i < length xs \<Longrightarrow> at xs i = Inr (xs ! i)"
  by (simp add: at_def nth_opt_def)

lemma insert_sorted_insort_key:
  assumes "\<And>a b. cmp a b \<le> 0 \<longleftrightarrow> f a \<le> f b"
  shows "insert_sorted cmp x ys = insort_key f x ys"
  by (induction ys) (simp_all add: assms)

lemma array_sort_sort_key:
  assumes "\<And>a b. cmp a b \<le> 0 \<longleftrightarrow> f a \<le> f b"
  shows "array_sort cmp xs = sort_key f xs"
proof -
  have "insert_sorted cmp = insort_key f"
    by (intro ext) (rule insert_sorted_insort_key [OF assms])
  then show ?thesis by (simp add: array_sort_def sort_key_def)
qed

lemma array_sort_asc: "array_sort (\<lambda>a b. a - b) xs = sort (xs :: int list)"
  by (rule array_sort_sort_key) simp

lemma array_sort_desc: "array_sort (\<lambda>a b. b - a) xs = sort_key uminus (xs :: int list)"
  by (rule array_sort_sort_key) simp

lemma array_sort_entries: "array_sort entry_cmp xs = sort_key entry_key xs"
  by (rule array_sort_sort_key) (auto simp: entry_cmp_def entry_key_def less_eq_prod_def)

lemma inj_entry_key: "inj entry_key"
  by (auto simp: inj_def entry_key_def prod_eq_iff)

text \<open>Under an injective key, the sorted list depends on the elements only.\<close>

lemma sort_key_inj_mset:
  fixes f :: "'a \<Rightarrow> 'b::linorder"
  assumes "inj f" "mset xs = mset ys"
  shows "sort_key f xs = sort_key f ys"
proof -
  have "mset (map f (sort_key f xs)) = mset (map f (sort_key f ys))"
    using assms(2) by simp
  moreover have "sorted (map f (sort_key f xs))" "sorted (map f (sort_key f ys))"
    by simp_all
  ultimately have "map f (sort_key f xs) = map f (sort_key f ys)"
    by (metis properties_for_sort)
  then show ?thesis
    using assms(1) by (simp add: inj_map_eq_map)
qed

section \<open>The rank counts\<close>

lemma map_of_map_set: "map_of (map_set m k v) = (map_of m)(k \<mapsto> v)"
  by (induction m) (auto simp: fun_eq_iff)

lemma keys_map_set: "fst ` set (map_set m k v) = insert k (fst ` set m)"
proof -
  have "dom (map_of (map_set m k v)) = insert k (dom (map_of m))"
    by (simp add: map_of_map_set)
  then show ?thesis by (simp add: dom_map_of_conv_image_fst)
qed

lemma distinct_map_set: "distinct (map fst m) \<Longrightarrow> distinct (map fst (map_set m k v))"
proof (induction m)
  case Nil
  then show ?case by simp
next
  case (Cons e m)
  have "fst e \<notin> fst ` set (map_set m k v)" if "fst e \<noteq> k"
    using Cons.prems that by (simp add: keys_map_set)
  with Cons show ?case by (cases e) auto
qed

lemma sum_map_set:
  "sum_list (map snd (map_set m k v)) =
     sum_list (map snd m) + v - (case map_of m k of None \<Rightarrow> 0 | Some n \<Rightarrow> n)"
  for v :: int
  by (induction m) auto

lemma sum_bump: "sum_list (map snd (bump m r)) = sum_list (map snd m) + 1"
  by (simp add: bump_def sum_map_set)

lemma distinct_bump: "distinct (map fst m) \<Longrightarrow> distinct (map fst (bump m r))"
  by (simp add: bump_def distinct_map_set)

lemma cnt_bump: "cnt (bump m r) k = cnt m k + (if k = r then 1 else 0)"
  by (simp add: cnt_def bump_def map_of_map_set)

lemma keys_bump: "fst ` set (bump m r) = insert r (fst ` set m)"
  by (simp add: bump_def keys_map_set)

lemma fold_bump_distinct:
  "distinct (map fst m) \<Longrightarrow> distinct (map fst (fold (\<lambda>r m. bump m r) rs m))"
  by (induction rs arbitrary: m) (simp_all add: distinct_bump)

lemma fold_bump_sum:
  "sum_list (map snd (fold (\<lambda>r m. bump m r) rs m)) = sum_list (map snd m) + int (length rs)"
  by (induction rs arbitrary: m) (simp_all add: sum_bump)

lemma fold_bump_keys:
  "fst ` set (fold (\<lambda>r m. bump m r) rs m) = fst ` set m \<union> set rs"
  by (induction rs arbitrary: m) (simp_all add: keys_bump)

lemma fold_bump_cnt:
  "cnt (fold (\<lambda>r m. bump m r) rs m) k = cnt m k + int (count_list rs k)"
  by (induction rs arbitrary: m) (simp_all add: cnt_bump)

lemma getRankCounts_fold: "getRankCounts cs = fold (\<lambda>r m. bump m r) (map rank cs) []"
  by (simp add: getRankCounts_def fold_map bump_def comp_def)

lemma getRankCounts_distinct: "distinct (map fst (getRankCounts cs))"
  by (simp add: getRankCounts_fold fold_bump_distinct)

lemma getRankCounts_sum: "sum_list (map snd (getRankCounts cs)) = int (length cs)"
  by (simp add: getRankCounts_fold fold_bump_sum)

lemma cnt_getRankCounts: "cnt (getRankCounts cs) r = int (count_list (map rank cs) r)"
proof -
  have "cnt [] r = 0" by (simp add: cnt_def)
  then show ?thesis by (simp add: getRankCounts_fold fold_bump_cnt)
qed

text \<open>The map holds exactly the ranks of the hand, each with its number of occurrences.\<close>

lemma getRankCounts_entry:
  "(r, n) \<in> set (getRankCounts cs) \<longleftrightarrow>
     r \<in> rank ` set cs \<and> n = int (count_list (map rank cs) r)"
proof
  assume in_set: "(r, n) \<in> set (getRankCounts cs)"
  then have "map_of (getRankCounts cs) r = Some n"
    using getRankCounts_distinct by simp
  then have "cnt (getRankCounts cs) r = n"
    by (simp add: cnt_def)
  then have "n = int (count_list (map rank cs) r)"
    by (simp add: cnt_getRankCounts)
  moreover have "r \<in> fst ` set (getRankCounts cs)"
    using in_set by force
  then have "r \<in> rank ` set cs"
    by (simp add: getRankCounts_fold fold_bump_keys)
  ultimately show "r \<in> rank ` set cs \<and> n = int (count_list (map rank cs) r)"
    by simp
next
  assume a: "r \<in> rank ` set cs \<and> n = int (count_list (map rank cs) r)"
  then have "r \<in> fst ` set (getRankCounts cs)"
    by (simp add: getRankCounts_fold fold_bump_keys)
  then obtain n' where n': "(r, n') \<in> set (getRankCounts cs)"
    by auto
  then have "map_of (getRankCounts cs) r = Some n'"
    using getRankCounts_distinct by simp
  then have "cnt (getRankCounts cs) r = n'"
    by (simp add: cnt_def)
  then have "n' = int (count_list (map rank cs) r)"
    by (simp add: cnt_getRankCounts)
  with a n' show "(r, n) \<in> set (getRankCounts cs)" by simp
qed

lemma getRankCounts_mset:
  assumes "mset (map rank cs) = mset (map rank ds)"
  shows "mset (getRankCounts cs) = mset (getRankCounts ds)"
proof -
  have s: "rank ` set cs = rank ` set ds"
    using mset_eq_setD [OF assms] by simp
  have c: "count_list (map rank cs) r = count_list (map rank ds) r" for r
    using assms by (metis count_mset)
  have "set (getRankCounts cs) = set (getRankCounts ds)"
    using s c by (auto simp: getRankCounts_entry)
  moreover have "distinct (getRankCounts cs)" "distinct (getRankCounts ds)"
    using getRankCounts_distinct distinct_map by blast+
  ultimately show ?thesis
    by (simp add: set_eq_iff_mset_eq_distinct)
qed

lemma getRankCounts_pos:
  assumes "e \<in> set (getRankCounts cs)"
  shows "1 \<le> snd e \<and> fst e \<in> rank ` set cs"
proof -
  have "fst e \<in> rank ` set cs" "snd e = int (count_list (map rank cs) (fst e))"
    using assms getRankCounts_entry [of "fst e" "snd e" cs] by simp_all
  moreover from this have "count_list (map rank cs) (fst e) \<noteq> 0"
    by (simp add: count_list_0_iff)
  ultimately show ?thesis by simp
qed

lemma length_le_sum_snd:
  "\<forall>e\<in>set es. 1 \<le> snd e \<Longrightarrow> int (length es) \<le> sum_list (map snd es)"
  for es :: "(int \<times> int) list"
  by (induction es) auto

text \<open>
  Positive counts that add up to five and come in descending order are one of the seven
  partitions of five.
\<close>

lemma count_shapes:
  fixes es :: "(int \<times> int) list"
  assumes sum: "sum_list (map snd es) = 5"
    and pos: "\<forall>e\<in>set es. 1 \<le> snd e"
    and srt: "sorted (map entry_key es)"
  shows "map snd es \<in> {[5], [4, 1], [3, 2], [3, 1, 1], [2, 2, 1], [2, 1, 1, 1], [1, 1, 1, 1, 1]}"
proof -
  have "length es \<le> 5"
    using length_le_sum_snd [OF pos] sum by simp
  moreover have "0 < length es"
    using sum by auto
  ultimately consider "length es = 1" | "length es = 2" | "length es = 3"
    | "length es = 4" | "length es = 5"
    by atomize_elim arith
  then show ?thesis
  proof cases
    case 1
    then obtain x where "es = [x]"
      by (auto simp: length_Suc_conv)
    with sum show ?thesis by simp
  next
    case 2
    then obtain x y where "es = [x, y]"
      by (auto simp: length_Suc_conv numeral_2_eq_2)
    with sum pos srt show ?thesis
      by (simp add: entry_key_def less_eq_prod_def) arith
  next
    case 3
    then obtain x y z where "es = [x, y, z]"
      by (auto simp: length_Suc_conv numeral_3_eq_3)
    with sum pos srt show ?thesis
      by (simp add: entry_key_def less_eq_prod_def) arith
  next
    case 4
    then obtain x y z w where "es = [x, y, z, w]"
      by (auto simp: length_Suc_conv numeral_eq_Suc)
    with sum pos srt show ?thesis
      by (simp add: entry_key_def less_eq_prod_def) arith
  next
    case 5
    then obtain x y z w v where "es = [x, y, z, w, v]"
      by (auto simp: length_Suc_conv numeral_eq_Suc)
    with sum pos srt show ?thesis
      by (simp add: entry_key_def less_eq_prod_def)
  qed
qed

lemma counts_sorted:
  assumes "length cs = 5"
  shows "map snd (array_sort entry_cmp (getRankCounts cs))
           \<in> {[5], [4, 1], [3, 2], [3, 1, 1], [2, 2, 1], [2, 1, 1, 1], [1, 1, 1, 1, 1]}"
proof (rule count_shapes)
  have "mset (map snd (sort_key entry_key (getRankCounts cs)))
          = mset (map snd (getRankCounts cs))"
    by simp
  then have "sum_list (map snd (sort_key entry_key (getRankCounts cs)))
          = sum_list (map snd (getRankCounts cs))"
    by (metis sum_mset_sum_list)
  then show "sum_list (map snd (array_sort entry_cmp (getRankCounts cs))) = 5"
    using assms by (simp add: array_sort_entries getRankCounts_sum)
  show "\<forall>e\<in>set (array_sort entry_cmp (getRankCounts cs)). 1 \<le> snd e"
    by (simp add: array_sort_entries getRankCounts_pos)
  show "sorted (map entry_key (array_sort entry_cmp (getRankCounts cs)))"
    by (simp add: array_sort_entries)
qed

lemma counts_keys:
  "e \<in> set (array_sort entry_cmp (getRankCounts cs)) \<Longrightarrow> fst e \<in> rank ` set cs"
  by (simp add: array_sort_entries getRankCounts_pos)

section \<open>Evaluating five cards\<close>

lemma isFlush_Inr: "cs \<noteq> [] \<Longrightarrow> isFlush cs = Inr (list_all (\<lambda>c. suit c = suit (cs ! 0)) cs)"
  by (simp add: isFlush_def at_Inr)

lemma isStraight_Inr:
  assumes "length cs = 5"
  shows "\<exists>b h. isStraight cs = Inr (b, h) \<and> (b \<longrightarrow> h \<in> insert 5 (rank ` set cs))"
proof -
  have "sort (map rank cs) ! 4 \<in> set (sort (map rank cs))"
    using assms by (intro nth_mem) simp
  then have "sort (map rank cs) ! 4 \<in> rank ` set cs"
    by simp
  then show ?thesis
    using assms by (auto simp: isStraight_def array_sort_asc at_Inr Let_def)
qed

lemma desc_kickers:
  "length (array_sort (\<lambda>a b. b - a) (map rank cs)) = length cs"
  "set (array_sort (\<lambda>a b. b - a) (map rank cs)) = rank ` set cs"
  by (simp_all add: array_sort_desc)

text \<open>
  Five cards always evaluate: the strength is that of the category and kickers returned,
  the number of kickers is that of the category, and every kicker is a rank of the hand
  or the 5 of the wheel.
\<close>

lemma evaluateHand_result:
  assumes len: "length cs = 5"
  shows "\<exists>r. evaluateHand cs = Inr r \<and> cards r = cs
           \<and> strength r = calculateStrength (hand_rank r) (kickers r)
           \<and> length (kickers r) = kicker_count (hand_rank r)
           \<and> set (kickers r) \<subseteq> insert 5 (rank ` set cs)"
proof -
  define counts where "counts = array_sort entry_cmp (getRankCounts cs)"
  obtain b h where st: "isStraight cs = Inr (b, h)" "b \<longrightarrow> h \<in> insert 5 (rank ` set cs)"
    using isStraight_Inr [OF len] by blast
  have "cs \<noteq> []"
    using len by auto
  then obtain fl where fl: "isFlush cs = Inr fl"
    using isFlush_Inr [of cs] by simp
  have keys: "\<And>e. e \<in> set counts \<Longrightarrow> fst e \<in> rank ` set cs"
    unfolding counts_def by (rule counts_keys)
  note ks = desc_kickers [of cs]
  have "map snd counts \<in> {[5], [4, 1], [3, 2], [3, 1, 1], [2, 2, 1], [2, 1, 1, 1], [1, 1, 1, 1, 1]}"
    unfolding counts_def by (rule counts_sorted [OF len])
  then consider
      (c5) e0 where "counts = [e0]" "snd e0 = 5"
    | (c41) e0 e1 where "counts = [e0, e1]" "snd e0 = 4" "snd e1 = 1"
    | (c32) e0 e1 where "counts = [e0, e1]" "snd e0 = 3" "snd e1 = 2"
    | (c311) e0 e1 e2 where "counts = [e0, e1, e2]" "snd e0 = 3" "snd e1 = 1" "snd e2 = 1"
    | (c221) e0 e1 e2 where "counts = [e0, e1, e2]" "snd e0 = 2" "snd e1 = 2" "snd e2 = 1"
    | (c2111) e0 e1 e2 e3 where "counts = [e0, e1, e2, e3]" "snd e0 = 2" "snd e1 = 1"
        "snd e2 = 1" "snd e3 = 1"
    | (c11111) e0 e1 e2 e3 e4 where "counts = [e0, e1, e2, e3, e4]" "snd e0 = 1"
    by (auto simp: map_eq_Cons_conv)
  then show ?thesis
  proof cases
    case c5
    then show ?thesis
      unfolding evaluateHand_def counts_def [symmetric]
      using len st fl ks by (auto simp: at_def nth_opt_def Let_def)
  next
    case c41
    then show ?thesis
      unfolding evaluateHand_def counts_def [symmetric]
      using len st fl ks keys [of e0] keys [of e1] by (auto simp: at_def nth_opt_def Let_def)
  next
    case c32
    then show ?thesis
      unfolding evaluateHand_def counts_def [symmetric]
      using len st fl ks keys [of e0] keys [of e1] by (auto simp: at_def nth_opt_def Let_def)
  next
    case c311
    then show ?thesis
      unfolding evaluateHand_def counts_def [symmetric]
      using len st fl ks keys [of e0] keys [of e1] keys [of e2]
      by (auto simp: at_def nth_opt_def Let_def)
  next
    case c221
    then show ?thesis
      unfolding evaluateHand_def counts_def [symmetric]
      using len st fl ks keys [of e0] keys [of e1] keys [of e2]
      by (auto simp: at_def nth_opt_def Let_def max_def min_def)
  next
    case c2111
    then show ?thesis
      unfolding evaluateHand_def counts_def [symmetric]
      using len st fl ks keys [of e0] keys [of e1] keys [of e2] keys [of e3]
      by (auto simp: at_def nth_opt_def Let_def)
  next
    case c11111
    then show ?thesis
      unfolding evaluateHand_def counts_def [symmetric]
      using len st fl ks by (auto simp: at_def nth_opt_def Let_def)
  qed
qed

section \<open>The strength scalar\<close>

lemma strength_loop_value:
  "strength_loop ks i s = s + (if i \<le> 4 then kick_value (4 - i) (drop i ks) else 0)"
proof (induction ks i s rule: strength_loop.induct)
  case (1 ks i s)
  show ?case
  proof (cases "i < length ks \<and> i < 5")
    case False
    then show ?thesis
      by (subst strength_loop.simps) auto
  next
    case True
    then have d: "drop i ks = ks ! i # drop (Suc i) ks"
      by (simp add: Cons_nth_drop_Suc)
    have "strength_loop ks i s = strength_loop ks (i + 1) (s + ks ! i * 15 ^ (4 - i))"
      using True by (subst strength_loop.simps) simp
    also have "\<dots> = s + ks ! i * 15 ^ (4 - i)
        + (if i + 1 \<le> 4 then kick_value (4 - (i + 1)) (drop (i + 1) ks) else 0)"
      using "1.IH" [OF True] by simp
    also have "\<dots> = s + kick_value (4 - i) (drop i ks)"
    proof (cases "i = 4")
      case True
      with d have "drop 4 ks = ks ! 4 # drop 5 ks" by simp
      with True show ?thesis by simp
    next
      case False
      with \<open>i < length ks \<and> i < 5\<close> have "4 - i = Suc (4 - (i + 1))" by arith
      then show ?thesis
        using False \<open>i < length ks \<and> i < 5\<close> by (simp add: d)
    qed
    finally show ?thesis
      using True by simp
  qed
qed

lemma calculateStrength_value:
  "calculateStrength r ks = HAND_RANK_VALUES r * 10000000000 + kick_value 4 ks"
  by (simp add: calculateStrength_def strength_loop_value)

lemma kick_value_bounds:
  "\<forall>k\<in>set ks. 0 \<le> k \<and> k \<le> 14 \<Longrightarrow> 0 \<le> kick_value n ks \<and> kick_value n ks < 15 ^ Suc n"
proof (induction n ks rule: kick_value.induct)
  case (1 n)
  then show ?case by simp
next
  case (2 k ks)
  then show ?case by simp
next
  case (3 n k ks)
  define P :: int where "P = 15 ^ Suc n"
  from 3 have r: "0 \<le> kick_value n ks" "kick_value n ks < P"
    and k: "0 \<le> k" "k \<le> 14"
    by (simp_all add: P_def)
  have P: "0 < P" "15 ^ Suc (Suc n) = 15 * P"
    by (simp_all add: P_def)
  have "k * P \<le> 14 * P"
    using k P by (intro mult_right_mono) simp_all
  moreover have "0 \<le> k * P"
    using k P by simp
  ultimately have "0 \<le> k * P + kick_value n ks \<and> k * P + kick_value n ks < 15 * P"
    using r by linarith
  then show ?case
    unfolding P(2) by (simp add: P_def)
qed

lemma digit_compare:
  fixes k k' r r' P :: int
  assumes "0 \<le> r" "r < P" "0 \<le> r'" "r' < P"
  shows "(k * P + r < k' * P + r' \<longleftrightarrow> k < k' \<or> (k = k' \<and> r < r'))"
    and "(k * P + r = k' * P + r' \<longleftrightarrow> k = k' \<and> r = r')"
proof -
  have lt: "a * P + x < b * P + y" if "a < b" "0 \<le> y" "x < P" for a b x y :: int
  proof -
    have "(a + 1) * P \<le> b * P"
      using that assms by (intro mult_right_mono) simp_all
    then show ?thesis
      using that by (simp add: algebra_simps)
  qed
  show "(k * P + r < k' * P + r' \<longleftrightarrow> k < k' \<or> (k = k' \<and> r < r'))"
    using lt [where a=k and b=k' and x=r and y=r'] lt [where a=k' and b=k and x=r' and y=r] assms
    by (cases k k' rule: linorder_cases) auto
  show "(k * P + r = k' * P + r' \<longleftrightarrow> k = k' \<and> r = r')"
    using lt [where a=k and b=k' and x=r and y=r'] lt [where a=k' and b=k and x=r' and y=r] assms
    by (cases k k' rule: linorder_cases) auto
qed

lemma kick_value_lex:
  assumes "length ks = length ks'" "length ks \<le> Suc n"
    "\<forall>k\<in>set ks. 0 \<le> k \<and> k \<le> 14" "\<forall>k\<in>set ks'. 0 \<le> k \<and> k \<le> 14"
  shows "(kick_value n ks < kick_value n ks' \<longleftrightarrow> ks < ks')
       \<and> (kick_value n ks = kick_value n ks' \<longleftrightarrow> ks = ks')"
  using assms
proof (induction ks ks' arbitrary: n rule: list_induct2)
  case Nil
  then show ?case by simp
next
  case (Cons k ks k' ks')
  show ?case
  proof (cases n)
    case 0
    with Cons show ?thesis by auto
  next
    case (Suc m)
    have b: "0 \<le> kick_value m ks" "kick_value m ks < 15 ^ Suc m"
      "0 \<le> kick_value m ks'" "kick_value m ks' < 15 ^ Suc m"
      using kick_value_bounds [of ks m] kick_value_bounds [of ks' m] Cons.prems by simp_all
    have ih: "(kick_value m ks < kick_value m ks' \<longleftrightarrow> ks < ks')
       \<and> (kick_value m ks = kick_value m ks' \<longleftrightarrow> ks = ks')"
      using Cons.IH [of m] Cons.prems Suc by simp
    show ?thesis
      using digit_compare [OF b, of k k'] ih by (simp add: Suc)
  qed
qed

lemma spec_higher_category_values:
  "spec_higher_category a b \<longleftrightarrow> HAND_RANK_VALUES b < HAND_RANK_VALUES a"
  by (cases a; cases b) (simp_all add: spec_higher_category_def)

lemma strength_category:
  assumes "\<forall>k\<in>set ks. 0 \<le> k \<and> k \<le> 14" "HAND_RANK_VALUES a < HAND_RANK_VALUES b"
    "\<forall>k\<in>set ks'. 0 \<le> k \<and> k \<le> 14"
  shows "calculateStrength a ks < calculateStrength b ks'"
proof -
  have "kick_value 4 ks < 15 ^ Suc 4" "0 \<le> kick_value 4 ks'"
    using kick_value_bounds [OF assms(1), of 4] kick_value_bounds [OF assms(3), of 4]
    by simp_all
  then show ?thesis
    using assms(2) by (simp add: calculateStrength_value)
qed

lemma strength_kickers:
  assumes "length ks = length ks'" "length ks \<le> 5"
    "\<forall>k\<in>set ks. 0 \<le> k \<and> k \<le> 14" "\<forall>k\<in>set ks'. 0 \<le> k \<and> k \<le> 14"
  shows "(calculateStrength a ks < calculateStrength a ks' \<longleftrightarrow> ks < ks')
       \<and> (calculateStrength a ks = calculateStrength a ks' \<longleftrightarrow> ks = ks')"
  using kick_value_lex [of ks ks' 4] assms by (simp add: calculateStrength_value)

lemma kicker_count_le: "kicker_count r \<le> 5"
  by (cases r) simp_all

lemma evaluateHand_valid:
  assumes "length cs = 5" "list_all valid_card cs"
  obtains r where "evaluateHand cs = Inr r" "cards r = cs"
    "strength r = calculateStrength (hand_rank r) (kickers r)"
    "length (kickers r) = kicker_count (hand_rank r)"
    "\<forall>k\<in>set (kickers r). 0 \<le> k \<and> k \<le> 14"
proof -
  obtain r where r: "evaluateHand cs = Inr r" "cards r = cs"
    "strength r = calculateStrength (hand_rank r) (kickers r)"
    "length (kickers r) = kicker_count (hand_rank r)"
    "set (kickers r) \<subseteq> insert 5 (rank ` set cs)"
    using evaluateHand_result [OF assms(1)] by blast
  have "\<forall>k\<in>insert 5 (rank ` set cs). 0 \<le> k \<and> k \<le> 14"
    using assms(2) by (auto simp: list_all_iff valid_card_def)
  with r(5) have "\<forall>k\<in>set (kickers r). 0 \<le> k \<and> k \<le> 14"
    by blast
  with r show ?thesis
    using that by blast
qed

section \<open>Claims about the evaluator\<close>

text \<open>
  C10. Five cards never make \<open>evaluateHand\<close> read out of range: every read of the sorted
  count groups (\<open>counts[0]\<close> to \<open>counts[3]\<close>) and of \<open>cards[0]\<close> in the flush test is a
  call of \<open>at\<close>, whose out-of-range branch is \<open>Inl TypeError\<close> and ends the evaluation,
  and the evaluation of five cards always returns a hand. The bound of four cards per
  rank is not needed: five cards of one rank fall through to the high-card branch, which
  reads no count group beyond \<open>counts[0]\<close>.
\<close>

theorem evaluateHand_reads_in_bounds:
  assumes "length cs = 5"
  shows "evaluateHand cs \<noteq> Inl TypeError \<and> (\<exists>r. evaluateHand cs = Inr r)"
  using evaluateHand_result [OF assms] by auto

theorem evaluateHand_reads_in_bounds_witness:
  "length [\<lparr>card_id = ''AH'', suit = Hearts, rank = 14\<rparr>,
           \<lparr>card_id = ''AS'', suit = Spades, rank = 14\<rparr>,
           \<lparr>card_id = ''AD'', suit = Diamonds, rank = 14\<rparr>,
           \<lparr>card_id = ''AC'', suit = Clubs, rank = 14\<rparr>,
           \<lparr>card_id = ''9H'', suit = Hearts, rank = 9\<rparr>] = 5
   \<and> evaluateHand [\<lparr>card_id = ''AH'', suit = Hearts, rank = 14\<rparr>,
           \<lparr>card_id = ''AS'', suit = Spades, rank = 14\<rparr>,
           \<lparr>card_id = ''AD'', suit = Diamonds, rank = 14\<rparr>,
           \<lparr>card_id = ''AC'', suit = Clubs, rank = 14\<rparr>,
           \<lparr>card_id = ''9H'', suit = Hearts, rank = 9\<rparr>] \<noteq> Inl TypeError"
  using evaluateHand_reads_in_bounds
    [of "[\<lparr>card_id = ''AH'', suit = Hearts, rank = 14\<rparr>,
          \<lparr>card_id = ''AS'', suit = Spades, rank = 14\<rparr>,
          \<lparr>card_id = ''AD'', suit = Diamonds, rank = 14\<rparr>,
          \<lparr>card_id = ''AC'', suit = Clubs, rank = 14\<rparr>,
          \<lparr>card_id = ''9H'', suit = Hearts, rank = 9\<rparr>]"]
  by simp

text \<open>
  C1. For two hands of five cards with ranks in 2..14, the strength orders them as the
  comparison rule does: the hand of the strictly higher category is strictly stronger
  whatever the kickers, and in the same category the strengths compare as the kicker
  lists do in the lexicographic order, most significant kicker first.
\<close>

theorem strength_orders_hands:
  assumes "length h1 = 5" "list_all valid_card h1" "length h2 = 5" "list_all valid_card h2"
  shows "\<exists>r1 r2. evaluateHand h1 = Inr r1 \<and> evaluateHand h2 = Inr r2
    \<and> (spec_higher_category (hand_rank r2) (hand_rank r1) \<longrightarrow> strength r1 < strength r2)
    \<and> (hand_rank r1 = hand_rank r2 \<longrightarrow>
         (strength r1 < strength r2 \<longleftrightarrow> kickers r1 < kickers r2)
         \<and> (strength r1 = strength r2 \<longleftrightarrow> kickers r1 = kickers r2))"
proof -
  obtain r1 where r1: "evaluateHand h1 = Inr r1"
    "strength r1 = calculateStrength (hand_rank r1) (kickers r1)"
    "length (kickers r1) = kicker_count (hand_rank r1)"
    "\<forall>k\<in>set (kickers r1). 0 \<le> k \<and> k \<le> 14"
    using evaluateHand_valid [OF assms(1,2)] by metis
  obtain r2 where r2: "evaluateHand h2 = Inr r2"
    "strength r2 = calculateStrength (hand_rank r2) (kickers r2)"
    "length (kickers r2) = kicker_count (hand_rank r2)"
    "\<forall>k\<in>set (kickers r2). 0 \<le> k \<and> k \<le> 14"
    using evaluateHand_valid [OF assms(3,4)] by metis
  have "strength r1 < strength r2" if "spec_higher_category (hand_rank r2) (hand_rank r1)"
    using that strength_category [OF r1(4) _ r2(4)] r1(2) r2(2)
    by (simp add: spec_higher_category_values)
  moreover have "(strength r1 < strength r2 \<longleftrightarrow> kickers r1 < kickers r2)
         \<and> (strength r1 = strength r2 \<longleftrightarrow> kickers r1 = kickers r2)"
    if "hand_rank r1 = hand_rank r2"
    using that strength_kickers [OF _ _ r1(4) r2(4), of "hand_rank r1"] r1(2,3) r2(2,3)
      kicker_count_le [of "hand_rank r1"]
    by simp
  ultimately show ?thesis
    using r1(1) r2(1) by blast
qed

theorem strength_orders_hands_witness:
  "length [\<lparr>card_id = ''AH'', suit = Hearts, rank = 14\<rparr>,
           \<lparr>card_id = ''AS'', suit = Spades, rank = 14\<rparr>,
           \<lparr>card_id = ''9H'', suit = Hearts, rank = 9\<rparr>,
           \<lparr>card_id = ''4C'', suit = Clubs, rank = 4\<rparr>,
           \<lparr>card_id = ''3H'', suit = Hearts, rank = 3\<rparr>] = 5
   \<and> list_all valid_card [\<lparr>card_id = ''AH'', suit = Hearts, rank = 14\<rparr>,
           \<lparr>card_id = ''AS'', suit = Spades, rank = 14\<rparr>,
           \<lparr>card_id = ''9H'', suit = Hearts, rank = 9\<rparr>,
           \<lparr>card_id = ''4C'', suit = Clubs, rank = 4\<rparr>,
           \<lparr>card_id = ''3H'', suit = Hearts, rank = 3\<rparr>]
   \<and> length [\<lparr>card_id = ''2H'', suit = Hearts, rank = 2\<rparr>,
           \<lparr>card_id = ''2S'', suit = Spades, rank = 2\<rparr>,
           \<lparr>card_id = ''2C'', suit = Clubs, rank = 2\<rparr>,
           \<lparr>card_id = ''KH'', suit = Hearts, rank = 13\<rparr>,
           \<lparr>card_id = ''QD'', suit = Diamonds, rank = 12\<rparr>] = 5
   \<and> list_all valid_card [\<lparr>card_id = ''2H'', suit = Hearts, rank = 2\<rparr>,
           \<lparr>card_id = ''2S'', suit = Spades, rank = 2\<rparr>,
           \<lparr>card_id = ''2C'', suit = Clubs, rank = 2\<rparr>,
           \<lparr>card_id = ''KH'', suit = Hearts, rank = 13\<rparr>,
           \<lparr>card_id = ''QD'', suit = Diamonds, rank = 12\<rparr>]
   \<and> (\<exists>r1 r2.
        evaluateHand [\<lparr>card_id = ''AH'', suit = Hearts, rank = 14\<rparr>,
           \<lparr>card_id = ''AS'', suit = Spades, rank = 14\<rparr>,
           \<lparr>card_id = ''9H'', suit = Hearts, rank = 9\<rparr>,
           \<lparr>card_id = ''4C'', suit = Clubs, rank = 4\<rparr>,
           \<lparr>card_id = ''3H'', suit = Hearts, rank = 3\<rparr>] = Inr r1
      \<and> evaluateHand [\<lparr>card_id = ''2H'', suit = Hearts, rank = 2\<rparr>,
           \<lparr>card_id = ''2S'', suit = Spades, rank = 2\<rparr>,
           \<lparr>card_id = ''2C'', suit = Clubs, rank = 2\<rparr>,
           \<lparr>card_id = ''KH'', suit = Hearts, rank = 13\<rparr>,
           \<lparr>card_id = ''QD'', suit = Diamonds, rank = 12\<rparr>] = Inr r2
      \<and> (spec_higher_category (hand_rank r2) (hand_rank r1) \<longrightarrow> strength r1 < strength r2)
      \<and> (hand_rank r1 = hand_rank r2 \<longrightarrow>
           (strength r1 < strength r2 \<longleftrightarrow> kickers r1 < kickers r2)
           \<and> (strength r1 = strength r2 \<longleftrightarrow> kickers r1 = kickers r2)))"
  using strength_orders_hands
    [of "[\<lparr>card_id = ''AH'', suit = Hearts, rank = 14\<rparr>,
          \<lparr>card_id = ''AS'', suit = Spades, rank = 14\<rparr>,
          \<lparr>card_id = ''9H'', suit = Hearts, rank = 9\<rparr>,
          \<lparr>card_id = ''4C'', suit = Clubs, rank = 4\<rparr>,
          \<lparr>card_id = ''3H'', suit = Hearts, rank = 3\<rparr>]"
        "[\<lparr>card_id = ''2H'', suit = Hearts, rank = 2\<rparr>,
          \<lparr>card_id = ''2S'', suit = Spades, rank = 2\<rparr>,
          \<lparr>card_id = ''2C'', suit = Clubs, rank = 2\<rparr>,
          \<lparr>card_id = ''KH'', suit = Hearts, rank = 13\<rparr>,
          \<lparr>card_id = ''QD'', suit = Diamonds, rank = 12\<rparr>]"]
  by (simp add: valid_card_def)

section \<open>Combinations and the best hand\<close>

lemma backtrack_length:
  "xs \<in> set (backtrack k rest cur) \<Longrightarrow> length xs = k"
  "xs \<in> set (backtrack_loop k rest cur) \<Longrightarrow> length xs = k"
  by (induction k rest cur and k rest cur rule: backtrack_backtrack_loop.induct)
    (auto split: if_splits)

lemma backtrack_loop_complete:
  assumes "M \<subseteq># mset rest" "M \<noteq> {#}" "size M + length cur = k"
  shows "\<exists>zs. mset zs = M \<and> cur @ zs \<in> set (backtrack_loop k rest cur)"
  using assms
proof (induction rest arbitrary: M cur)
  case Nil
  then show ?case by simp
next
  case (Cons x rest)
  show ?case
  proof (cases "x \<in># M")
    case False
    have "M \<subseteq># add_mset x (mset rest)"
      using Cons.prems(1) by simp
    with False have "M \<subseteq># mset rest"
      by (metis Diff_eq_empty_iff_mset minus_add_mset_if_not_in_lhs)
    from Cons.IH [OF this Cons.prems(2,3)] show ?thesis
      by auto
  next
    case True
    define M' where "M' = M - {#x#}"
    have M: "M = add_mset x M'"
      using True by (simp add: M'_def)
    have sub: "M' \<subseteq># mset rest"
      using Cons.prems(1) by (simp add: M)
    have sz: "size M' + length (cur @ [x]) = k"
      using Cons.prems(3) by (simp add: M)
    show ?thesis
    proof (cases "M' = {#}")
      case True
      then have "length (cur @ [x]) = k"
        using sz by simp
      then have "cur @ [x] \<in> set (backtrack_loop k (x # rest) cur)"
        by simp
      then show ?thesis
        using True M by (intro exI [of _ "[x]"]) simp
    next
      case False
      then have "length (cur @ [x]) \<noteq> k"
        using sz by auto
      moreover obtain zs where zs: "mset zs = M'"
        "(cur @ [x]) @ zs \<in> set (backtrack_loop k rest (cur @ [x]))"
        using Cons.IH [OF sub False sz] by blast
      ultimately have "cur @ x # zs \<in> set (backtrack_loop k (x # rest) cur)"
        by simp
      then show ?thesis
        using zs(1) M by (intro exI [of _ "x # zs"]) simp
    qed
  qed
qed

lemma mset_sub_eq: "M \<subseteq># N \<Longrightarrow> size M = size N \<Longrightarrow> M = N"
proof -
  assume "M \<subseteq># N" "size M = size N"
  then obtain K where "N = M + K"
    by (auto simp: mset_subset_eq_exists_conv)
  with \<open>size M = size N\<close> show "M = N"
    by simp
qed

lemma take_sub: "mset (take n cs) \<subseteq># mset cs"
proof -
  have "mset cs = mset (take n cs) + mset (drop n cs)"
    by (simp flip: mset_append)
  then show ?thesis
    by (metis mset_subset_eq_add_left)
qed

lemma combinations_length: "xs \<in> set (combinations array k) \<Longrightarrow> length xs = k"
  unfolding combinations_def by (rule backtrack_length(1))

lemma combinations_complete:
  assumes "mset sub \<subseteq># mset array" "length sub = k" "0 < k"
  shows "\<exists>zs \<in> set (combinations array k). mset zs = mset sub"
proof -
  have "mset sub \<noteq> {#}"
    using assms(2,3) by auto
  then obtain zs where "mset zs = mset sub" "[] @ zs \<in> set (backtrack_loop k array [])"
    using backtrack_loop_complete [OF assms(1), of "[]" k] assms(2) by auto
  then show ?thesis
    using assms(3) by (auto simp: combinations_def)
qed

lemma best_loop_result:
  assumes "\<forall>c\<in>set combos. length c = 5"
  shows "\<exists>res. best_loop combos best = Inr res
     \<and> (res = None \<longleftrightarrow> combos = [] \<and> best = None)
     \<and> (\<forall>b. res = Some b \<longrightarrow>
          (\<forall>c\<in>set combos. \<forall>h. evaluateHand c = Inr h \<longrightarrow> strength h \<le> strength b)
          \<and> (\<forall>b0. best = Some b0 \<longrightarrow> strength b0 \<le> strength b)
          \<and> (best = Some b \<or> (\<exists>c\<in>set combos. evaluateHand c = Inr b)))"
  using assms
proof (induction combos arbitrary: best)
  case Nil
  then show ?case by auto
next
  case (Cons c combos)
  obtain h where h: "evaluateHand c = Inr h"
    using evaluateHand_result [of c] Cons.prems by auto
  define best' where "best' = (case best of None \<Rightarrow> Some h
     | Some b \<Rightarrow> if strength h > strength b then Some h else Some b)"
  obtain res where res: "best_loop combos best' = Inr res"
    "res = None \<longleftrightarrow> combos = [] \<and> best' = None"
    "\<forall>b. res = Some b \<longrightarrow>
          (\<forall>c\<in>set combos. \<forall>h. evaluateHand c = Inr h \<longrightarrow> strength h \<le> strength b)
          \<and> (\<forall>b0. best' = Some b0 \<longrightarrow> strength b0 \<le> strength b)
          \<and> (best' = Some b \<or> (\<exists>c\<in>set combos. evaluateHand c = Inr b))"
    using Cons.IH [of best'] Cons.prems by auto
  have step: "best_loop (c # combos) best = Inr res"
    using h res(1) by (simp add: best'_def)
  have "\<exists>b'. best' = Some b' \<and> strength h \<le> strength b'
    \<and> (\<forall>b0. best = Some b0 \<longrightarrow> strength b0 \<le> strength b')
    \<and> (best = Some b' \<or> b' = h)"
    by (cases best) (simp_all add: best'_def)
  then obtain b' where b': "best' = Some b'" "strength h \<le> strength b'"
    "\<forall>b0. best = Some b0 \<longrightarrow> strength b0 \<le> strength b'"
    "best = Some b' \<or> b' = h"
    by blast
  then obtain b where b: "res = Some b"
    using res(2) by (cases res) auto
  have "strength b' \<le> strength b"
    using res(3) b b'(1) by simp
  moreover have "best = Some b \<or> (\<exists>c'\<in>set (c # combos). evaluateHand c' = Inr b)"
    using res(3) b b'(1,4) h by auto
  ultimately show ?case
    using step b res(3) b'(2,3) h by auto
qed

lemma findBestHand_result:
  assumes "5 \<le> length cs"
  shows "\<exists>b. findBestHand cs = Inr (Some b)
    \<and> (\<forall>sub. mset sub \<subseteq># mset cs \<and> length sub = 5
          \<longrightarrow> (\<exists>c h'. mset c = mset sub \<and> evaluateHand c = Inr h' \<and> strength h' \<le> strength b))"
proof (cases "length cs = 5")
  case True
  then obtain b where b: "evaluateHand cs = Inr b"
    using evaluateHand_result [of cs] by auto
  have "mset cs = mset sub" if "mset sub \<subseteq># mset cs" "length sub = 5" for sub
    using that True by (intro mset_sub_eq [symmetric]) simp_all
  then have "\<exists>c h'. mset c = mset sub \<and> evaluateHand c = Inr h' \<and> strength h' \<le> strength b"
    if "mset sub \<subseteq># mset cs \<and> length sub = 5" for sub
    using that b by (intro exI [of _ cs] exI [of _ b]) simp
  moreover have "findBestHand cs = Inr (Some b)"
    using True b by (simp add: findBestHand_def)
  ultimately show ?thesis
    by blast
next
  case False
  define combos where "combos = combinations cs 5"
  have len: "\<forall>c\<in>set combos. length c = 5"
    unfolding combos_def using combinations_length by blast
  obtain res where res: "best_loop combos None = Inr res"
    "res = None \<longleftrightarrow> combos = [] \<and> (None :: HandResult option) = None"
    "\<forall>b. res = Some b \<longrightarrow>
       (\<forall>c\<in>set combos. \<forall>h. evaluateHand c = Inr h \<longrightarrow> strength h \<le> strength b)"
    using best_loop_result [OF len, of None] by blast
  have "mset (take 5 cs) \<subseteq># mset cs"
    by (rule take_sub)
  then have "\<exists>zs\<in>set combos. mset zs = mset (take 5 cs)"
    unfolding combos_def using assms by (intro combinations_complete) simp_all
  then have "combos \<noteq> []"
    by auto
  then obtain b where b: "res = Some b"
    using res(2) by (cases res) simp_all
  have "\<exists>c h'. mset c = mset sub \<and> evaluateHand c = Inr h' \<and> strength h' \<le> strength b"
    if "mset sub \<subseteq># mset cs \<and> length sub = 5" for sub
  proof -
    have "\<exists>zs\<in>set combos. mset zs = mset sub"
      unfolding combos_def using that by (intro combinations_complete) simp_all
    then obtain c where c: "c \<in> set combos" "mset c = mset sub"
      by blast
    then have "length c = 5"
      using len by simp
    then obtain h' where h': "evaluateHand c = Inr h'"
      using evaluateHand_result [of c] by blast
    then have "strength h' \<le> strength b"
      using c(1) res(3) b by blast
    with c(2) h' show ?thesis
      by blast
  qed
  moreover have "findBestHand cs = best_loop combos None"
    unfolding findBestHand_def combos_def using False assms by simp
  then have "findBestHand cs = Inr (Some b)"
    using res(1) b by simp
  ultimately show ?thesis
    by blast
qed

text \<open>The evaluation of five cards does not depend on their order, but for the cards returned.\<close>

lemma isFlush_set:
  "cs \<noteq> [] \<Longrightarrow> isFlush cs = Inr (\<forall>c\<in>set cs. \<forall>d\<in>set cs. suit c = suit d)"
proof -
  assume "cs \<noteq> []"
  then have "cs ! 0 \<in> set cs"
    by simp
  then have "(\<forall>c\<in>set cs. suit c = suit (cs ! 0)) \<longleftrightarrow> (\<forall>c\<in>set cs. \<forall>d\<in>set cs. suit c = suit d)"
    by metis
  with \<open>cs \<noteq> []\<close> show ?thesis
    by (simp add: isFlush_Inr list_all_iff)
qed

lemma evaluateHand_perm:
  assumes "mset cs = mset ds"
  shows "evaluateHand ds = map_sum id (\<lambda>r. r\<lparr>cards := ds\<rparr>) (evaluateHand cs)"
proof (cases "length cs = 5")
  case False
  moreover have len: "length ds = length cs"
    using assms by (metis size_mset)
  ultimately show ?thesis
    by (simp add: evaluateHand_def)
next
  case True
  have len: "length ds = length cs"
    using assms by (metis size_mset)
  have ranks: "mset (map rank ds) = mset (map rank cs)"
    using assms by (metis mset_map)
  have counts: "array_sort entry_cmp (getRankCounts ds) = array_sort entry_cmp (getRankCounts cs)"
    unfolding array_sort_entries
    by (intro sort_key_inj_mset inj_entry_key getRankCounts_mset ranks)
  have asc: "array_sort (\<lambda>a b. a - b) (map rank ds) = array_sort (\<lambda>a b. a - b) (map rank cs)"
    unfolding array_sort_asc by (intro sort_key_inj_mset ranks) simp
  have desc: "array_sort (\<lambda>a b. b - a) (map rank ds) = array_sort (\<lambda>a b. b - a) (map rank cs)"
    unfolding array_sort_desc by (intro sort_key_inj_mset ranks) simp
  have straight: "isStraight ds = isStraight cs"
    by (simp add: isStraight_def asc)
  have "set ds = set cs"
    using assms by (metis set_mset_mset)
  moreover have "cs \<noteq> []" "ds \<noteq> []"
    using True len by auto
  ultimately have flush: "isFlush ds = isFlush cs"
    by (simp add: isFlush_set)
  obtain fl where fl: "isFlush cs = Inr fl"
    using \<open>cs \<noteq> []\<close> isFlush_set by blast
  obtain b h where st: "isStraight cs = Inr (b, h)"
    using isStraight_Inr [OF True] by blast
  show ?thesis
    unfolding evaluateHand_def counts len flush straight desc fl st
    by (simp add: Let_def bindE_def split: sum.splits)
qed

lemma distinct_subset_mset:
  assumes "distinct sub" "set sub \<subseteq> set cs"
  shows "mset sub \<subseteq># mset cs"
proof (rule mset_subset_eqI)
  fix a
  show "count (mset sub) a \<le> count (mset cs) a"
  proof (cases "a \<in> set sub")
    case True
    then have "count (mset sub) a = 1"
      using assms(1) by (simp add: distinct_count_atmost_1)
    moreover have "a \<in># mset cs"
      using True assms(2) by auto
    then have "1 \<le> count (mset cs) a"
      by (simp add: Suc_le_eq)
    ultimately show ?thesis by simp
  next
    case False
    then have "count_list sub a = 0"
      by (simp add: count_list_0_iff)
    then have "count (mset sub) a = 0"
      by (simp only: count_mset)
    then show ?thesis by (simp only: le0)
  qed
qed

text \<open>
  C6. For five or more cards, \<open>findBestHand\<close> returns a hand, and its strength is at
  least that of \<open>evaluateHand\<close> on any five distinct cards among them, in any order; for
  exactly five cards it returns \<open>evaluateHand\<close> of these cards. Neither the distinctness
  of the whole set nor the bound of ten cards is needed.
\<close>

theorem findBestHand_is_best:
  assumes "5 \<le> length cs" "distinct sub" "set sub \<subseteq> set cs" "length sub = 5"
  shows "\<exists>b h. findBestHand cs = Inr (Some b) \<and> evaluateHand sub = Inr h
           \<and> strength h \<le> strength b
           \<and> (length cs = 5 \<longrightarrow> evaluateHand cs = Inr b)"
proof -
  obtain b where b: "findBestHand cs = Inr (Some b)"
    "\<forall>sub. mset sub \<subseteq># mset cs \<and> length sub = 5
          \<longrightarrow> (\<exists>c h'. mset c = mset sub \<and> evaluateHand c = Inr h' \<and> strength h' \<le> strength b)"
    using findBestHand_result [OF assms(1)] by blast
  have "mset sub \<subseteq># mset cs"
    using assms(2,3) by (rule distinct_subset_mset)
  then obtain c h' where c: "mset c = mset sub" "evaluateHand c = Inr h'"
    "strength h' \<le> strength b"
    using b(2) assms(4) by blast
  have "evaluateHand sub = Inr (h'\<lparr>cards := sub\<rparr>)"
    using evaluateHand_perm [OF c(1)] c(2) by simp
  moreover have "evaluateHand cs = Inr b" if "length cs = 5"
    using that b(1) by (auto simp: findBestHand_def bindE_eq_Inr)
  ultimately show ?thesis
    using b(1) c(3) by auto
qed

theorem findBestHand_is_best_witness:
  "5 \<le> length [\<lparr>card_id = ''AH'', suit = Hearts, rank = 14\<rparr>,
           \<lparr>card_id = ''AS'', suit = Spades, rank = 14\<rparr>,
           \<lparr>card_id = ''9H'', suit = Hearts, rank = 9\<rparr>,
           \<lparr>card_id = ''4C'', suit = Clubs, rank = 4\<rparr>,
           \<lparr>card_id = ''3H'', suit = Hearts, rank = 3\<rparr>,
           \<lparr>card_id = ''9D'', suit = Diamonds, rank = 9\<rparr>]
   \<and> distinct [\<lparr>card_id = ''9D'', suit = Diamonds, rank = 9\<rparr>,
           \<lparr>card_id = ''3H'', suit = Hearts, rank = 3\<rparr>,
           \<lparr>card_id = ''AS'', suit = Spades, rank = 14\<rparr>,
           \<lparr>card_id = ''9H'', suit = Hearts, rank = 9\<rparr>,
           \<lparr>card_id = ''4C'', suit = Clubs, rank = 4\<rparr>]
   \<and> (\<exists>b h. findBestHand [\<lparr>card_id = ''AH'', suit = Hearts, rank = 14\<rparr>,
           \<lparr>card_id = ''AS'', suit = Spades, rank = 14\<rparr>,
           \<lparr>card_id = ''9H'', suit = Hearts, rank = 9\<rparr>,
           \<lparr>card_id = ''4C'', suit = Clubs, rank = 4\<rparr>,
           \<lparr>card_id = ''3H'', suit = Hearts, rank = 3\<rparr>,
           \<lparr>card_id = ''9D'', suit = Diamonds, rank = 9\<rparr>] = Inr (Some b)
        \<and> evaluateHand [\<lparr>card_id = ''9D'', suit = Diamonds, rank = 9\<rparr>,
           \<lparr>card_id = ''3H'', suit = Hearts, rank = 3\<rparr>,
           \<lparr>card_id = ''AS'', suit = Spades, rank = 14\<rparr>,
           \<lparr>card_id = ''9H'', suit = Hearts, rank = 9\<rparr>,
           \<lparr>card_id = ''4C'', suit = Clubs, rank = 4\<rparr>] = Inr h
        \<and> strength h \<le> strength b)"
  using findBestHand_is_best
    [of "[\<lparr>card_id = ''AH'', suit = Hearts, rank = 14\<rparr>,
          \<lparr>card_id = ''AS'', suit = Spades, rank = 14\<rparr>,
          \<lparr>card_id = ''9H'', suit = Hearts, rank = 9\<rparr>,
          \<lparr>card_id = ''4C'', suit = Clubs, rank = 4\<rparr>,
          \<lparr>card_id = ''3H'', suit = Hearts, rank = 3\<rparr>,
          \<lparr>card_id = ''9D'', suit = Diamonds, rank = 9\<rparr>]"
        "[\<lparr>card_id = ''9D'', suit = Diamonds, rank = 9\<rparr>,
          \<lparr>card_id = ''3H'', suit = Hearts, rank = 3\<rparr>,
          \<lparr>card_id = ''AS'', suit = Spades, rank = 14\<rparr>,
          \<lparr>card_id = ''9H'', suit = Hearts, rank = 9\<rparr>,
          \<lparr>card_id = ''4C'', suit = Clubs, rank = 4\<rparr>]"]
  by simp

section \<open>Straights\<close>

lemma counts_distinct_ranks:
  assumes "length cs = 5" "distinct (map rank cs)"
  shows "\<exists>e0 e1 e2 e3 e4. array_sort entry_cmp (getRankCounts cs) = [e0, e1, e2, e3, e4]
           \<and> snd e0 = 1"
proof -
  define counts where "counts = array_sort entry_cmp (getRankCounts cs)"
  have one: "snd e = 1" if "e \<in> set counts" for e
  proof -
    have e: "e \<in> set (getRankCounts cs)"
      using that by (simp add: counts_def array_sort_entries)
    then have "fst e \<in> rank ` set cs" "snd e = int (count_list (map rank cs) (fst e))"
      using getRankCounts_entry [of "fst e" "snd e" cs] by simp_all
    moreover have "count (mset (map rank cs)) (fst e) = 1"
      using assms(2) calculation(1) by (simp add: distinct_count_atmost_1)
    then have "count_list (map rank cs) (fst e) = 1"
      by (simp only: count_mset)
    ultimately show ?thesis
      by simp
  qed
  have "map snd counts \<in> {[5], [4, 1], [3, 2], [3, 1, 1], [2, 2, 1], [2, 1, 1, 1], [1, 1, 1, 1, 1]}"
    unfolding counts_def by (rule counts_sorted [OF assms(1)])
  moreover have "counts \<noteq> [] \<Longrightarrow> snd (hd counts) = 1"
    using one by simp
  ultimately have "map snd counts = [1, 1, 1, 1, 1]"
    by (cases counts) auto
  then show ?thesis
    unfolding counts_def [symmetric] by (auto simp: map_eq_Cons_conv)
qed

lemma evaluateHand_straight:
  assumes "length cs = 5" "distinct (map rank cs)" "isStraight cs = Inr (True, h)"
  shows "evaluateHand cs =
    (if (\<forall>c\<in>set cs. \<forall>d\<in>set cs. suit c = suit d)
     then Inr \<lparr>hand_rank = StraightFlush, cards = cs, kickers = [h],
               strength = calculateStrength StraightFlush [h]\<rparr>
     else Inr \<lparr>hand_rank = Straight, cards = cs, kickers = [h],
               strength = calculateStrength Straight [h]\<rparr>)"
proof -
  obtain e0 e1 e2 e3 e4 where counts: "array_sort entry_cmp (getRankCounts cs) = [e0, e1, e2, e3, e4]"
    "snd e0 = 1"
    using counts_distinct_ranks [OF assms(1,2)] by blast
  define fl where "fl \<longleftrightarrow> (\<forall>c\<in>set cs. \<forall>d\<in>set cs. suit c = suit d)"
  have "cs \<noteq> []"
    using assms(1) by auto
  then have fl: "isFlush cs = Inr fl"
    unfolding fl_def by (rule isFlush_set)
  show ?thesis
    unfolding fl_def [symmetric] evaluateHand_def counts fl assms(3)
    using assms(1) counts(2) by (simp add: Let_def at_def nth_opt_def)
qed

lemma sort_of_mset: "mset xs = mset ys \<Longrightarrow> sort xs = sort ys"
  for xs :: "int list"
  by (metis sorted_list_of_multiset_mset)

lemma wheel_isStraight:
  assumes "mset (map rank cs) = {#14, 2, 3, 4, 5#}"
  shows "isStraight cs = Inr (True, 5)"
proof -
  have "mset (map rank cs) = mset [14, 2, 3, 4, 5]"
    using assms by simp
  then have "sort (map rank cs) = sort [14, 2, 3, 4, 5]"
    by (rule sort_of_mset)
  then have "sort (map rank cs) = [2, 3, 4, 5, 14]"
    by simp
  then show ?thesis
    by (simp add: isStraight_def array_sort_asc nth_opt_def)
qed

lemma six_high_isStraight:
  assumes "mset (map rank cs) = {#2, 3, 4, 5, 6#}"
  shows "isStraight cs = Inr (True, 6)"
proof -
  have "mset (map rank cs) = mset [2, 3, 4, 5, 6]"
    using assms by simp
  then have "sort (map rank cs) = sort [2, 3, 4, 5, 6]"
    by (rule sort_of_mset)
  then have "sort (map rank cs) = [2, 3, 4, 5, 6]"
    by simp
  then show ?thesis
    by (simp add: isStraight_def array_sort_asc nth_opt_def at_def)
qed

lemma five_distinct_ranks:
  assumes "mset (map rank cs) = mset rs" "distinct rs" "length rs = 5"
  shows "length cs = 5" "distinct (map rank cs)"
proof -
  show "length cs = 5"
    using assms(1,3) by (metis length_map size_mset)
  show "distinct (map rank cs)"
    using assms(1,2) by (metis mset_eq_imp_distinct_iff)
qed

text \<open>
  C5, as stated, fails: the wheel is a straight with high card 5 (a straight flush when
  suited), but an unsuited wheel is weaker than a flush, which is not a straight, and a
  suited wheel is stronger than an unsuited 6-high straight. The four evaluations below
  give the strengths 40000253125 (unsuited wheel) against 50000534662 (flush), and
  80000253125 (suited wheel) against 40000303750 (unsuited 6-high straight).
\<close>

theorem wheel_comparison_counterexample:
  "evaluateHand [\<lparr>card_id = ''AS'', suit = Spades, rank = 14\<rparr>,
       \<lparr>card_id = ''2H'', suit = Hearts, rank = 2\<rparr>,
       \<lparr>card_id = ''3H'', suit = Hearts, rank = 3\<rparr>,
       \<lparr>card_id = ''4H'', suit = Hearts, rank = 4\<rparr>,
       \<lparr>card_id = ''5H'', suit = Hearts, rank = 5\<rparr>]
     = Inr \<lparr>hand_rank = Straight,
         cards = [\<lparr>card_id = ''AS'', suit = Spades, rank = 14\<rparr>,
           \<lparr>card_id = ''2H'', suit = Hearts, rank = 2\<rparr>,
           \<lparr>card_id = ''3H'', suit = Hearts, rank = 3\<rparr>,
           \<lparr>card_id = ''4H'', suit = Hearts, rank = 4\<rparr>,
           \<lparr>card_id = ''5H'', suit = Hearts, rank = 5\<rparr>],
         kickers = [5], strength = 40000253125\<rparr>
   \<and> evaluateHand [\<lparr>card_id = ''2D'', suit = Diamonds, rank = 2\<rparr>,
       \<lparr>card_id = ''4D'', suit = Diamonds, rank = 4\<rparr>,
       \<lparr>card_id = ''6D'', suit = Diamonds, rank = 6\<rparr>,
       \<lparr>card_id = ''8D'', suit = Diamonds, rank = 8\<rparr>,
       \<lparr>card_id = ''10D'', suit = Diamonds, rank = 10\<rparr>]
     = Inr \<lparr>hand_rank = Flush,
         cards = [\<lparr>card_id = ''2D'', suit = Diamonds, rank = 2\<rparr>,
           \<lparr>card_id = ''4D'', suit = Diamonds, rank = 4\<rparr>,
           \<lparr>card_id = ''6D'', suit = Diamonds, rank = 6\<rparr>,
           \<lparr>card_id = ''8D'', suit = Diamonds, rank = 8\<rparr>,
           \<lparr>card_id = ''10D'', suit = Diamonds, rank = 10\<rparr>],
         kickers = [10, 8, 6, 4, 2], strength = 50000534662\<rparr>
   \<and> evaluateHand [\<lparr>card_id = ''AH'', suit = Hearts, rank = 14\<rparr>,
       \<lparr>card_id = ''2H'', suit = Hearts, rank = 2\<rparr>,
       \<lparr>card_id = ''3H'', suit = Hearts, rank = 3\<rparr>,
       \<lparr>card_id = ''4H'', suit = Hearts, rank = 4\<rparr>,
       \<lparr>card_id = ''5H'', suit = Hearts, rank = 5\<rparr>]
     = Inr \<lparr>hand_rank = StraightFlush,
         cards = [\<lparr>card_id = ''AH'', suit = Hearts, rank = 14\<rparr>,
           \<lparr>card_id = ''2H'', suit = Hearts, rank = 2\<rparr>,
           \<lparr>card_id = ''3H'', suit = Hearts, rank = 3\<rparr>,
           \<lparr>card_id = ''4H'', suit = Hearts, rank = 4\<rparr>,
           \<lparr>card_id = ''5H'', suit = Hearts, rank = 5\<rparr>],
         kickers = [5], strength = 80000253125\<rparr>
   \<and> evaluateHand [\<lparr>card_id = ''2S'', suit = Spades, rank = 2\<rparr>,
       \<lparr>card_id = ''3H'', suit = Hearts, rank = 3\<rparr>,
       \<lparr>card_id = ''4H'', suit = Hearts, rank = 4\<rparr>,
       \<lparr>card_id = ''5H'', suit = Hearts, rank = 5\<rparr>,
       \<lparr>card_id = ''6H'', suit = Hearts, rank = 6\<rparr>]
     = Inr \<lparr>hand_rank = Straight,
         cards = [\<lparr>card_id = ''2S'', suit = Spades, rank = 2\<rparr>,
           \<lparr>card_id = ''3H'', suit = Hearts, rank = 3\<rparr>,
           \<lparr>card_id = ''4H'', suit = Hearts, rank = 4\<rparr>,
           \<lparr>card_id = ''5H'', suit = Hearts, rank = 5\<rparr>,
           \<lparr>card_id = ''6H'', suit = Hearts, rank = 6\<rparr>],
         kickers = [6], strength = 40000303750\<rparr>"
  by code_simp

text \<open>
  C5, amended. A hand with the ranks A, 2, 3, 4, 5 evaluates as a straight, or as a
  straight flush when all its cards have one suit, with the single kicker 5. It is
  strictly weaker than every 6-high straight whose category is not lower than its own
  (every 6-high straight for an unsuited wheel, every 6-high straight flush for a suited
  one), and strictly stronger than every hand (five cards, ranks in 2..14) of a strictly
  lower category.
\<close>

theorem wheel_is_lowest_straight:
  assumes "mset (map rank cs) = {#14, 2, 3, 4, 5#}"
  shows "\<exists>r. evaluateHand cs = Inr r
     \<and> hand_rank r = (if (\<forall>c\<in>set cs. \<forall>d\<in>set cs. suit c = suit d)
                      then StraightFlush else Straight)
     \<and> kickers r = [5]
     \<and> (\<forall>six r6. mset (map rank six) = {#2, 3, 4, 5, 6#} \<and> evaluateHand six = Inr r6
            \<and> \<not> spec_higher_category (hand_rank r) (hand_rank r6) \<longrightarrow> strength r < strength r6)
     \<and> (\<forall>other ro. length other = 5 \<and> list_all valid_card other \<and> evaluateHand other = Inr ro
            \<and> spec_higher_category (hand_rank r) (hand_rank ro) \<longrightarrow> strength ro < strength r)"
proof -
  have m: "mset (map rank cs) = mset [14, 2, 3, 4, 5]"
    using assms by simp
  have len: "length cs = 5" and dist: "distinct (map rank cs)"
    using five_distinct_ranks [OF m] by simp_all
  define fl where "fl \<longleftrightarrow> (\<forall>c\<in>set cs. \<forall>d\<in>set cs. suit c = suit d)"
  define r where "r = (if fl
     then \<lparr>hand_rank = StraightFlush, cards = cs, kickers = [5],
               strength = calculateStrength StraightFlush [5]\<rparr>
     else \<lparr>hand_rank = Straight, cards = cs, kickers = [5],
               strength = calculateStrength Straight [5]\<rparr>)"
  have ev: "evaluateHand cs = Inr r"
    using evaluateHand_straight [OF len dist wheel_isStraight [OF assms]]
    unfolding fl_def [symmetric] by (simp add: r_def)
  have str: "strength r = calculateStrength (hand_rank r) [5]" and k: "kickers r = [5]"
    and "hand_rank r = (if fl then StraightFlush else Straight)"
    by (simp_all add: r_def)
  then have hr: "hand_rank r = (if (\<forall>c\<in>set cs. \<forall>d\<in>set cs. suit c = suit d)
                      then StraightFlush else Straight)"
    unfolding fl_def by blast
  have six: "strength r < strength r6"
    if "mset (map rank six) = {#2, 3, 4, 5, 6#}" "evaluateHand six = Inr r6"
      "\<not> spec_higher_category (hand_rank r) (hand_rank r6)" for six r6
  proof -
    have m6: "mset (map rank six) = mset [2, 3, 4, 5, 6]"
      using that(1) by simp
    have "length six = 5" "distinct (map rank six)"
      using five_distinct_ranks [OF m6] by simp_all
    then have "evaluateHand six =
        Inr \<lparr>hand_rank = StraightFlush, cards = six, kickers = [6],
               strength = calculateStrength StraightFlush [6]\<rparr>
      \<or> evaluateHand six =
        Inr \<lparr>hand_rank = Straight, cards = six, kickers = [6],
               strength = calculateStrength Straight [6]\<rparr>"
      using evaluateHand_straight [OF _ _ six_high_isStraight [OF that(1)]]
      by presburger
    then have "strength r6 = calculateStrength (hand_rank r6) [6]
      \<and> (hand_rank r6 = StraightFlush \<or> hand_rank r6 = Straight)"
      using that(2) by auto
    moreover have "hand_rank r = StraightFlush \<or> hand_rank r = Straight"
      by (simp add: r_def)
    ultimately show ?thesis
      using that(3) str
      by (auto simp: calculateStrength_value eval_nat_numeral spec_higher_category_def)
  qed
  have low: "strength ro < strength r"
    if o: "length other = 5" "list_all valid_card other" "evaluateHand other = Inr ro"
      "spec_higher_category (hand_rank r) (hand_rank ro)" for other ro
  proof -
    obtain ro' where ro': "evaluateHand other = Inr ro'"
      "strength ro' = calculateStrength (hand_rank ro') (kickers ro')"
      "\<forall>k\<in>set (kickers ro'). 0 \<le> k \<and> k \<le> 14"
      using evaluateHand_valid [OF o(1,2)] by metis
    then have "ro' = ro"
      using o(3) by simp
    then show ?thesis
      using strength_category [OF ro'(3), of "hand_rank ro" "hand_rank r" "[5]"] ro'(2) str o(4)
      by (simp add: spec_higher_category_values)
  qed
  show ?thesis
    using ev hr k six low by blast
qed

theorem wheel_is_lowest_straight_witness:
  "mset (map rank [\<lparr>card_id = ''AS'', suit = Spades, rank = 14\<rparr>,
       \<lparr>card_id = ''2H'', suit = Hearts, rank = 2\<rparr>,
       \<lparr>card_id = ''3H'', suit = Hearts, rank = 3\<rparr>,
       \<lparr>card_id = ''4H'', suit = Hearts, rank = 4\<rparr>,
       \<lparr>card_id = ''5H'', suit = Hearts, rank = 5\<rparr>]) = {#14, 2, 3, 4, 5#}
   \<and> (\<exists>r. evaluateHand [\<lparr>card_id = ''AS'', suit = Spades, rank = 14\<rparr>,
           \<lparr>card_id = ''2H'', suit = Hearts, rank = 2\<rparr>,
           \<lparr>card_id = ''3H'', suit = Hearts, rank = 3\<rparr>,
           \<lparr>card_id = ''4H'', suit = Hearts, rank = 4\<rparr>,
           \<lparr>card_id = ''5H'', suit = Hearts, rank = 5\<rparr>] = Inr r
        \<and> hand_rank r = Straight \<and> kickers r = [5]
        \<and> (\<exists>r6. evaluateHand [\<lparr>card_id = ''2S'', suit = Spades, rank = 2\<rparr>,
               \<lparr>card_id = ''3H'', suit = Hearts, rank = 3\<rparr>,
               \<lparr>card_id = ''4H'', suit = Hearts, rank = 4\<rparr>,
               \<lparr>card_id = ''5H'', suit = Hearts, rank = 5\<rparr>,
               \<lparr>card_id = ''6H'', suit = Hearts, rank = 6\<rparr>] = Inr r6
             \<and> strength r < strength r6)
        \<and> (\<exists>ro. evaluateHand [\<lparr>card_id = ''2H'', suit = Hearts, rank = 2\<rparr>,
               \<lparr>card_id = ''2S'', suit = Spades, rank = 2\<rparr>,
               \<lparr>card_id = ''2C'', suit = Clubs, rank = 2\<rparr>,
               \<lparr>card_id = ''KH'', suit = Hearts, rank = 13\<rparr>,
               \<lparr>card_id = ''QD'', suit = Diamonds, rank = 12\<rparr>] = Inr ro
             \<and> strength ro < strength r))"
proof -
  let ?w = "[\<lparr>card_id = ''AS'', suit = Spades, rank = 14\<rparr>,
       \<lparr>card_id = ''2H'', suit = Hearts, rank = 2\<rparr>,
       \<lparr>card_id = ''3H'', suit = Hearts, rank = 3\<rparr>,
       \<lparr>card_id = ''4H'', suit = Hearts, rank = 4\<rparr>,
       \<lparr>card_id = ''5H'', suit = Hearts, rank = 5\<rparr>]"
  let ?six = "[\<lparr>card_id = ''2S'', suit = Spades, rank = 2\<rparr>,
       \<lparr>card_id = ''3H'', suit = Hearts, rank = 3\<rparr>,
       \<lparr>card_id = ''4H'', suit = Hearts, rank = 4\<rparr>,
       \<lparr>card_id = ''5H'', suit = Hearts, rank = 5\<rparr>,
       \<lparr>card_id = ''6H'', suit = Hearts, rank = 6\<rparr>]"
  let ?low = "[\<lparr>card_id = ''2H'', suit = Hearts, rank = 2\<rparr>,
       \<lparr>card_id = ''2S'', suit = Spades, rank = 2\<rparr>,
       \<lparr>card_id = ''2C'', suit = Clubs, rank = 2\<rparr>,
       \<lparr>card_id = ''KH'', suit = Hearts, rank = 13\<rparr>,
       \<lparr>card_id = ''QD'', suit = Diamonds, rank = 12\<rparr>]"
  have w: "mset (map rank ?w) = {#14, 2, 3, 4, 5#}"
    by simp
  obtain r where r: "evaluateHand ?w = Inr r" "hand_rank r = Straight" "kickers r = [5]"
    "\<forall>six r6. mset (map rank six) = {#2, 3, 4, 5, 6#} \<and> evaluateHand six = Inr r6
            \<and> \<not> spec_higher_category (hand_rank r) (hand_rank r6) \<longrightarrow> strength r < strength r6"
    "\<forall>other ro. length other = 5 \<and> list_all valid_card other \<and> evaluateHand other = Inr ro
            \<and> spec_higher_category (hand_rank r) (hand_rank ro) \<longrightarrow> strength ro < strength r"
    using wheel_is_lowest_straight [OF w] by auto
  have six: "evaluateHand ?six = Inr \<lparr>hand_rank = Straight, cards = ?six, kickers = [6],
      strength = 40000303750\<rparr>"
    by code_simp
  have low: "evaluateHand ?low = Inr \<lparr>hand_rank = ThreeOfAKind, cards = ?low,
      kickers = [2, 13, 12], strength = 30000147825\<rparr>"
    by code_simp
  have "strength r < strength \<lparr>hand_rank = Straight, cards = ?six, kickers = [6],
      strength = 40000303750\<rparr>"
    using six r(2) by (intro r(4) [rule_format, of ?six]) (simp add: spec_higher_category_def)
  moreover have "strength \<lparr>hand_rank = ThreeOfAKind, cards = ?low,
      kickers = [2, 13, 12], strength = 30000147825\<rparr> < strength r"
    using low r(2) by (intro r(5) [rule_format, of ?low])
      (simp add: valid_card_def spec_higher_category_def)
  ultimately show ?thesis
    using w r(1,2,3) six low by blast
qed

section \<open>Choosing the weakest and the strongest players\<close>

lemma mapE_map: "\<forall>x\<in>set xs. f x = Inr (g x) \<Longrightarrow> mapE f xs = Inr (map g xs)"
  by (induction xs) simp_all

lemma mapE_Inr_D:
  "mapE f xs = Inr ys \<Longrightarrow> length ys = length xs \<and> (\<forall>i<length xs. f (xs ! i) = Inr (ys ! i))"
proof (induction xs arbitrary: ys)
  case Nil
  then show ?case by simp
next
  case (Cons x xs)
  then obtain y ys' where y: "f x = Inr y" "mapE f xs = Inr ys'" "ys = y # ys'"
    by (auto simp: bindE_eq_Inr)
  with Cons.IH [OF y(2)] show ?case
    by (auto simp: nth_Cons split: nat.splits)
qed

lemma filterE_map:
  assumes "\<forall>x\<in>set xs. hand_strength (f x) = Inr (V x)"
  shows "filterE (\<lambda>s. bindE (hand_strength s) (\<lambda>v. Inr (v = m))) (map f xs)
           = Inr (map f (filter (\<lambda>x. V x = m) xs))"
  using assms by (induction xs) simp_all

lemma min_loop_map:
  assumes "\<forall>x\<in>set xs. hand_strength (f x) = Inr (V x)"
  shows "\<exists>m'. min_loop (map f xs) m = Inr m' \<and> m' \<le> m \<and> (\<forall>x\<in>set xs. m' \<le> V x)
           \<and> (m' = m \<or> m' \<in> V ` set xs)"
  using assms
proof (induction xs arbitrary: m)
  case Nil
  then show ?case by simp
next
  case (Cons x xs)
  define m1 where "m1 = (if V x < m then V x else m)"
  obtain m' where m': "min_loop (map f xs) m1 = Inr m'" "m' \<le> m1" "\<forall>x\<in>set xs. m' \<le> V x"
    "m' = m1 \<or> m' \<in> V ` set xs"
    using Cons.IH [of m1] Cons.prems by auto
  have "min_loop (map f (x # xs)) m = Inr m'"
    using Cons.prems m'(1) by (simp add: m1_def)
  moreover have "m' \<le> m" "m' \<le> V x" "m' = m \<or> m' = V x \<or> m' \<in> V ` set xs"
    using m'(2,4) by (auto simp: m1_def split: if_splits)
  ultimately show ?case
    using m'(3) by auto
qed

lemma max_loop_map:
  assumes "\<forall>x\<in>set xs. hand_strength (f x) = Inr (V x)"
  shows "\<exists>m'. max_loop (map f xs) m = Inr m' \<and> m \<le> m' \<and> (\<forall>x\<in>set xs. V x \<le> m')
           \<and> (m' = m \<or> m' \<in> V ` set xs)"
  using assms
proof (induction xs arbitrary: m)
  case Nil
  then show ?case by simp
next
  case (Cons x xs)
  define m1 where "m1 = (if V x > m then V x else m)"
  obtain m' where m': "max_loop (map f xs) m1 = Inr m'" "m1 \<le> m'" "\<forall>x\<in>set xs. V x \<le> m'"
    "m' = m1 \<or> m' \<in> V ` set xs"
    using Cons.IH [of m1] Cons.prems by auto
  have "max_loop (map f (x # xs)) m = Inr m'"
    using Cons.prems m'(1) by (simp add: m1_def)
  moreover have "m \<le> m'" "V x \<le> m'" "m' = m \<or> m' = V x \<or> m' \<in> V ` set xs"
    using m'(2,4) by (auto simp: m1_def split: if_splits)
  ultimately show ?case
    using m'(3) by auto
qed

lemma min_loop_Inr_D:
  "min_loop ss m = Inr m' \<Longrightarrow> \<forall>s\<in>set ss. \<exists>h. snd s = Some h"
proof (induction ss arbitrary: m)
  case Nil
  then show ?case by simp
next
  case (Cons s ss)
  then obtain v where v: "hand_strength s = Inr v"
    "min_loop ss (if v < m then v else m) = Inr m'"
    by (auto simp: bindE_eq_Inr)
  from v(1) have "\<exists>h. snd s = Some h"
    by (auto simp: hand_strength_def split: option.splits)
  with Cons.IH [OF v(2)] show ?case
    by simp
qed

text \<open>The common part of \<open>findWeakestPlayers\<close> and \<open>determineWinner\<close>, when every hand is found.\<close>

lemma weakest_of:
  assumes g: "\<forall>p\<in>set ps. g p = Inr (Some (G p))" and ne: "ps \<noteq> []"
  shows "bindE (mapE (\<lambda>p. bindE (g p) (\<lambda>h. Inr (p, h))) ps) (\<lambda>strengths.
        bindE (at strengths 0) (\<lambda>s0.
        bindE (hand_strength s0) (\<lambda>first.
        bindE (min_loop strengths first) (\<lambda>minStrength.
        bindE (filterE (\<lambda>s. bindE (hand_strength s) (\<lambda>v. Inr (v = minStrength))) strengths)
          (\<lambda>weakest. k (map fst weakest))))))
     = k (filter (\<lambda>p. \<forall>q\<in>set ps. strength (G p) \<le> strength (G q)) ps)"
proof -
  define f where "f p = (p, Some (G p))" for p
  define V where "V p = strength (G p)" for p
  have hs: "\<forall>p\<in>set ps. hand_strength (f p) = Inr (V p)"
    by (simp add: f_def V_def hand_strength_def)
  have m: "mapE (\<lambda>p. bindE (g p) (\<lambda>h. Inr (p, h))) ps = Inr (map f ps)"
    using g by (intro mapE_map) (simp add: f_def)
  have a: "at (map f ps) 0 = Inr (f (ps ! 0))"
    using ne by (simp add: at_Inr)
  have p0: "ps ! 0 \<in> set ps"
    using ne by simp
  obtain m' where m': "min_loop (map f ps) (V (ps ! 0)) = Inr m'"
    "\<forall>x\<in>set ps. m' \<le> V x" "m' = V (ps ! 0) \<or> m' \<in> V ` set ps"
    using min_loop_map [OF hs, of "V (ps ! 0)"] by blast
  have "m' \<in> V ` set ps"
    using m'(3) p0 by auto
  then have "V p = m' \<longleftrightarrow> (\<forall>q\<in>set ps. V p \<le> V q)" if "p \<in> set ps" for p
    using m'(2) that by force
  then have e: "filter (\<lambda>p. V p = m') ps = filter (\<lambda>p. \<forall>q\<in>set ps. V p \<le> V q) ps"
    by (intro filter_cong) simp_all
  have fst: "map fst (map f xs) = xs" for xs
    by (simp add: f_def comp_def)
  have h0: "hand_strength (f (ps ! 0)) = Inr (V (ps ! 0))"
    using hs p0 by blast
  show ?thesis
    unfolding m bindE_simps a h0 m'(1) filterE_map [OF hs] fst e
    by (simp add: V_def)
qed

lemma strongest_of:
  assumes g: "\<forall>p\<in>set ps. g p = Inr (Some (G p))" and ne: "ps \<noteq> []"
  shows "bindE (mapE (\<lambda>p. bindE (g p) (\<lambda>h. Inr (p, h))) ps) (\<lambda>strengths.
        bindE (at strengths 0) (\<lambda>s0.
        bindE (hand_strength s0) (\<lambda>first.
        bindE (max_loop strengths first) (\<lambda>maxStrength.
        bindE (filterE (\<lambda>s. bindE (hand_strength s) (\<lambda>v. Inr (v = maxStrength))) strengths)
          (\<lambda>winners. k (map fst winners))))))
     = k (filter (\<lambda>p. \<forall>q\<in>set ps. strength (G q) \<le> strength (G p)) ps)"
proof -
  define f where "f p = (p, Some (G p))" for p
  define V where "V p = strength (G p)" for p
  have hs: "\<forall>p\<in>set ps. hand_strength (f p) = Inr (V p)"
    by (simp add: f_def V_def hand_strength_def)
  have m: "mapE (\<lambda>p. bindE (g p) (\<lambda>h. Inr (p, h))) ps = Inr (map f ps)"
    using g by (intro mapE_map) (simp add: f_def)
  have a: "at (map f ps) 0 = Inr (f (ps ! 0))"
    using ne by (simp add: at_Inr)
  have p0: "ps ! 0 \<in> set ps"
    using ne by simp
  obtain m' where m': "max_loop (map f ps) (V (ps ! 0)) = Inr m'"
    "\<forall>x\<in>set ps. V x \<le> m'" "m' = V (ps ! 0) \<or> m' \<in> V ` set ps"
    using max_loop_map [OF hs, of "V (ps ! 0)"] by blast
  have "m' \<in> V ` set ps"
    using m'(3) p0 by auto
  then have "V p = m' \<longleftrightarrow> (\<forall>q\<in>set ps. V q \<le> V p)" if "p \<in> set ps" for p
    using m'(2) that by force
  then have e: "filter (\<lambda>p. V p = m') ps = filter (\<lambda>p. \<forall>q\<in>set ps. V q \<le> V p) ps"
    by (intro filter_cong) simp_all
  have fst: "map fst (map f xs) = xs" for xs
    by (simp add: f_def comp_def)
  have h0: "hand_strength (f (ps ! 0)) = Inr (V (ps ! 0))"
    using hs p0 by blast
  show ?thesis
    unfolding m bindE_simps a h0 m'(1) filterE_map [OF hs] fst e
    by (simp add: V_def)
qed

lemma findWeakestPlayers_value:
  assumes "\<forall>p\<in>set ps. holeCards p \<noteq> [] \<longrightarrow> getCurrentStrength p = Inr (Some (G p))"
  shows "findWeakestPlayers ps =
    Inr (filter (\<lambda>p. holeCards p \<noteq> []
           \<and> (\<forall>q\<in>set ps. holeCards q \<noteq> [] \<longrightarrow> strength (G p) \<le> strength (G q))) ps)"
proof -
  define holders where "holders = filter (\<lambda>p. length (holeCards p) > 0) ps"
  have set_holders: "set holders = {p \<in> set ps. holeCards p \<noteq> []}"
    by (auto simp: holders_def)
  have eq: "filter (\<lambda>p. \<forall>q\<in>set holders. strength (G p) \<le> strength (G q)) holders =
     filter (\<lambda>p. holeCards p \<noteq> []
           \<and> (\<forall>q\<in>set ps. holeCards q \<noteq> [] \<longrightarrow> strength (G p) \<le> strength (G q))) ps"
    unfolding set_holders unfolding holders_def filter_filter
    by (intro filter_cong) auto
  show ?thesis
  proof (cases "holders = []")
    case True
    then have "findWeakestPlayers ps = Inr []"
      by (simp add: findWeakestPlayers_def holders_def)
    then show ?thesis
      using eq True by simp
  next
    case False
    have g: "\<forall>p\<in>set holders. getCurrentStrength p = Inr (Some (G p))"
      using assms by (simp add: set_holders)
    have "findWeakestPlayers ps =
      Inr (filter (\<lambda>p. \<forall>q\<in>set holders. strength (G p) \<le> strength (G q)) holders)"
      unfolding findWeakestPlayers_def holders_def [symmetric] Let_def
      using False weakest_of [OF g False, of Inr] by simp
    then show ?thesis
      using eq by simp
  qed
qed

lemma findWeakestPlayers_hands:
  assumes "findWeakestPlayers ps = Inr w"
  shows "\<exists>G. \<forall>p\<in>set ps. holeCards p \<noteq> [] \<longrightarrow> getCurrentStrength p = Inr (Some (G p))"
proof -
  define holders where "holders = filter (\<lambda>p. length (holeCards p) > 0) ps"
  have set_holders: "set holders = {p \<in> set ps. holeCards p \<noteq> []}"
    by (auto simp: holders_def)
  have "\<exists>h. getCurrentStrength p = Inr (Some h)" if p: "p \<in> set holders" for p
  proof -
    from p have ne: "holders \<noteq> []"
      by auto
    obtain ss s0 first m' where ss:
      "mapE (\<lambda>p. bindE (getCurrentStrength p) (\<lambda>h. Inr (p, h))) holders = Inr ss"
      "min_loop ss first = Inr m'"
      using assms ne unfolding findWeakestPlayers_def holders_def [symmetric] Let_def
      by (auto simp: bindE_eq_Inr)
    obtain i where i: "i < length holders" "holders ! i = p"
      using p by (auto simp: in_set_conv_nth)
    have len: "length ss = length holders"
      and "bindE (getCurrentStrength (holders ! i)) (\<lambda>h. Inr (holders ! i, h)) = Inr (ss ! i)"
      using mapE_Inr_D [OF ss(1)] i(1) by simp_all
    then obtain x where "getCurrentStrength p = Inr x" "ss ! i = (p, x)"
      using i(2) by (auto simp: bindE_eq_Inr)
    then have "getCurrentStrength p = Inr (snd (ss ! i))"
      by simp
    moreover have "ss ! i \<in> set ss"
      using i(1) len by simp
    then have "\<exists>h. snd (ss ! i) = Some h"
      using min_loop_Inr_D [OF ss(2)] by blast
    ultimately show ?thesis
      by auto
  qed
  then have "\<forall>p\<in>set holders. \<exists>h. getCurrentStrength p = Inr (Some h)"
    by blast
  then obtain G where "\<forall>p\<in>set holders. getCurrentStrength p = Inr (Some (G p))"
    by (metis bchoice)
  then show ?thesis
    by (auto simp: set_holders)
qed

lemma ex_weakest:
  fixes V :: "'a \<Rightarrow> int"
  assumes "xs \<noteq> []"
  shows "\<exists>p\<in>set xs. \<forall>q\<in>set xs. V p \<le> V q"
proof -
  have "Min (V ` set xs) \<in> V ` set xs"
    using assms by (intro Min_in) simp_all
  then obtain p where "p \<in> set xs" "V p = Min (V ` set xs)"
    by auto
  then show ?thesis
    by (intro bexI [of _ p]) simp_all
qed

lemma ex_strongest:
  fixes V :: "'a \<Rightarrow> int"
  assumes "xs \<noteq> []"
  shows "\<exists>p\<in>set xs. \<forall>q\<in>set xs. V q \<le> V p"
proof -
  have "Max (V ` set xs) \<in> V ` set xs"
    using assms by (intro Max_in) simp_all
  then obtain p where "p \<in> set xs" "V p = Max (V ` set xs)"
    by auto
  then show ?thesis
    by (intro bexI [of _ p]) simp_all
qed

lemma findWeakestPlayers_holders:
  assumes "findWeakestPlayers ps = Inr w"
  shows "set w \<subseteq> {p \<in> set ps. holeCards p \<noteq> []}"
    and "w = [] \<longleftrightarrow> (\<forall>p\<in>set ps. holeCards p = [])"
proof -
  obtain G where G: "\<forall>p\<in>set ps. holeCards p \<noteq> [] \<longrightarrow> getCurrentStrength p = Inr (Some (G p))"
    using findWeakestPlayers_hands [OF assms] by blast
  have w: "w = filter (\<lambda>p. holeCards p \<noteq> []
           \<and> (\<forall>q\<in>set ps. holeCards q \<noteq> [] \<longrightarrow> strength (G p) \<le> strength (G q))) ps"
    using findWeakestPlayers_value [OF G] assms by simp
  show "set w \<subseteq> {p \<in> set ps. holeCards p \<noteq> []}"
    unfolding w by auto
  show "w = [] \<longleftrightarrow> (\<forall>p\<in>set ps. holeCards p = [])"
  proof
    assume "w = []"
    show "\<forall>p\<in>set ps. holeCards p = []"
    proof (rule ccontr)
      assume "\<not> (\<forall>p\<in>set ps. holeCards p = [])"
      then have "filter (\<lambda>p. holeCards p \<noteq> []) ps \<noteq> []"
        by (auto simp: filter_empty_conv)
      then obtain p where "p \<in> set (filter (\<lambda>p. holeCards p \<noteq> []) ps)"
        "\<forall>q\<in>set (filter (\<lambda>p. holeCards p \<noteq> []) ps). strength (G p) \<le> strength (G q)"
        using ex_weakest [of "filter (\<lambda>p. holeCards p \<noteq> []) ps" "\<lambda>p. strength (G p)"] by blast
      then have "p \<in> set w"
        unfolding w by auto
      with \<open>w = []\<close> show False by simp
    qed
  next
    assume "\<forall>p\<in>set ps. holeCards p = []"
    then show "w = []"
      unfolding w by (auto simp: filter_empty_conv)
  qed
qed

lemma findBestHand_strength:
  assumes "5 \<le> length cs"
  shows "\<exists>h. findBestHand cs = Inr (Some h) \<and> best_strength cs = strength h"
proof -
  obtain h where "findBestHand cs = Inr (Some h)"
    using findBestHand_result [OF assms] by blast
  then show ?thesis
    by (simp add: best_strength_def)
qed

lemma determineWinner_value:
  assumes "phase s = Showdown" "players s \<noteq> []"
    and "\<forall>p\<in>set (players s). getFinalStrength p = Inr (Some (G p))"
  shows "determineWinner s =
    Inr (s\<lparr>phase := Finished,
           winner := Some (filter (\<lambda>p. \<forall>q\<in>set (players s). strength (G q) \<le> strength (G p))
                             (players s))\<rparr>)"
  unfolding determineWinner_def
    strongest_of [OF assms(3,2), of "\<lambda>w. Inr (s\<lparr>phase := Finished, winner := Some w\<rparr>)"]
  using assms(1) by simp

section \<open>Claims about the rounds\<close>

text \<open>
  C9. \<open>startRevealRound\<close> is idempotent: starting a round again from the state that
  \<open>startRevealRound\<close> returned gives that state again, and where the first call raises,
  the composition raises the same error.
\<close>

theorem startRevealRound_idempotent:
  "bindE (startRevealRound s) startRevealRound = startRevealRound s"
proof (cases "startRevealRound s")
  case (Inl e)
  then show ?thesis by simp
next
  case (Inr s')
  show ?thesis
  proof (cases "phase s = Revealing")
    case False
    then show ?thesis
      by (simp add: startRevealRound_def)
  next
    case True
    then obtain w where w: "findWeakestPlayers (players s) = Inr w"
      "s' = (if length w = 0 then s\<lparr>phase := Showdown, waitingForPlayers := []\<rparr>
             else s\<lparr>waitingForPlayers := map player_id w\<rparr>)"
      using Inr by (auto simp: startRevealRound_def bindE_eq_Inr split: if_splits)
    have "startRevealRound s' = Inr s'"
      using True w by (simp add: startRevealRound_def)
    then show ?thesis
      using Inr by simp
  qed
qed

theorem startRevealRound_idempotent_witness:
  "bindE (startRevealRound example_revealing) startRevealRound
     = Inr (example_revealing\<lparr>waitingForPlayers := [0]\<rparr>)"
proof -
  have "startRevealRound example_revealing = Inr (example_revealing\<lparr>waitingForPlayers := [0]\<rparr>)"
    by code_simp
  then show ?thesis
    using startRevealRound_idempotent [of example_revealing] by simp
qed

text \<open>
  C2, as stated, fails: \<open>short_handed\<close> is a state in phase revealing whose player holds
  a hole card, and \<open>startRevealRound\<close> raises on it, because \<open>findBestHand\<close> refuses the
  four visible cards.
\<close>

theorem startRevealRound_raises_counterexample:
  "phase short_handed = Revealing \<and> startRevealRound short_handed = Inl TooFewCards"
  by (simp add: short_handed_def startRevealRound_def findWeakestPlayers_def
      getCurrentStrength_def getRevealedCards_def findBestHand_def)

text \<open>
  C2, amended. In phase revealing, when every player who holds a hole card shows at
  least five cards (door and revealed hole cards), \<open>startRevealRound\<close> returns a state
  with the same players; if no player holds a hole card, its phase is showdown and nobody
  is waited for; otherwise the phase stays revealing and \<open>waitingForPlayers\<close> is the list of
  the ids of exactly the players who hold a hole card and whose strength over door and
  revealed cards only is least among the holders of hole cards, ties included.
\<close>

theorem startRevealRound_weakest:
  assumes "phase s = Revealing"
    and "\<forall>p\<in>set (players s). holeCards p \<noteq> []
           \<longrightarrow> 5 \<le> length (doorCards p @ revealedHoleCards p)"
  shows "\<exists>s'. startRevealRound s = Inr s' \<and> players s' = players s
     \<and> (if \<forall>p\<in>set (players s). holeCards p = []
        then phase s' = Showdown \<and> waitingForPlayers s' = []
        else phase s' = Revealing
          \<and> waitingForPlayers s' =
              map player_id
                (filter (\<lambda>p. holeCards p \<noteq> []
                    \<and> (\<forall>q\<in>set (players s). holeCards q \<noteq> []
                          \<longrightarrow> best_strength (doorCards p @ revealedHoleCards p)
                                \<le> best_strength (doorCards q @ revealedHoleCards q)))
                  (players s)))"
proof -
  have "\<forall>p\<in>set (players s). \<exists>h. holeCards p \<noteq> [] \<longrightarrow>
      getCurrentStrength p = Inr (Some h)
      \<and> best_strength (doorCards p @ revealedHoleCards p) = strength h"
    using assms(2) findBestHand_strength
    by (auto simp: getCurrentStrength_def getRevealedCards_def)
  then obtain G where G: "\<forall>p\<in>set (players s). holeCards p \<noteq> [] \<longrightarrow>
      getCurrentStrength p = Inr (Some (G p))
      \<and> best_strength (doorCards p @ revealedHoleCards p) = strength (G p)"
    by (metis bchoice)
  define w where "w = filter (\<lambda>p. holeCards p \<noteq> []
       \<and> (\<forall>q\<in>set (players s). holeCards q \<noteq> []
             \<longrightarrow> best_strength (doorCards p @ revealedHoleCards p)
                    \<le> best_strength (doorCards q @ revealedHoleCards q))) (players s)"
  have "findWeakestPlayers (players s) =
    Inr (filter (\<lambda>p. holeCards p \<noteq> []
           \<and> (\<forall>q\<in>set (players s). holeCards q \<noteq> []
                  \<longrightarrow> strength (G p) \<le> strength (G q))) (players s))"
    using G by (intro findWeakestPlayers_value) simp
  also have "filter (\<lambda>p. holeCards p \<noteq> []
           \<and> (\<forall>q\<in>set (players s). holeCards q \<noteq> []
                  \<longrightarrow> strength (G p) \<le> strength (G q))) (players s) = w"
    unfolding w_def using G by (intro filter_cong) auto
  finally have fw: "findWeakestPlayers (players s) = Inr w" .
  have empty: "w = [] \<longleftrightarrow> (\<forall>p\<in>set (players s). holeCards p = [])"
    using findWeakestPlayers_holders(2) [OF fw] .
  show ?thesis
    using assms(1) empty unfolding startRevealRound_def fw w_def [symmetric]
    by simp
qed

theorem startRevealRound_weakest_witness:
  "phase example_revealing = Revealing
   \<and> list_all (\<lambda>p. holeCards p \<noteq> [] \<longrightarrow> 5 \<le> length (doorCards p @ revealedHoleCards p))
        (players example_revealing)
   \<and> (\<exists>s'. startRevealRound example_revealing = Inr s'
        \<and> phase s' = Revealing
        \<and> waitingForPlayers s' =
              map player_id
                (filter (\<lambda>p. holeCards p \<noteq> []
                    \<and> (\<forall>q\<in>set (players example_revealing). holeCards q \<noteq> []
                          \<longrightarrow> best_strength (doorCards p @ revealedHoleCards p)
                                \<le> best_strength (doorCards q @ revealedHoleCards q)))
                  (players example_revealing))
        \<and> waitingForPlayers s' = [0])"
proof -
  have h1: "phase example_revealing = Revealing"
    by (simp add: example_revealing_def)
  have l2: "list_all (\<lambda>p. holeCards p \<noteq> [] \<longrightarrow> 5 \<le> length (doorCards p @ revealedHoleCards p))
        (players example_revealing)"
    by (simp add: example_revealing_def)
  then have h2: "\<forall>p\<in>set (players example_revealing). holeCards p \<noteq> []
           \<longrightarrow> 5 \<le> length (doorCards p @ revealedHoleCards p)"
    by (simp only: list_all_iff)
  have holders: "\<not> (\<forall>p\<in>set (players example_revealing). holeCards p = [])"
    by (simp add: example_revealing_def)
  have "startRevealRound example_revealing = Inr (example_revealing\<lparr>waitingForPlayers := [0]\<rparr>)"
    by code_simp
  then have "\<exists>s'. startRevealRound example_revealing = Inr s'
        \<and> phase s' = Revealing
        \<and> waitingForPlayers s' =
              map player_id
                (filter (\<lambda>p. holeCards p \<noteq> []
                    \<and> (\<forall>q\<in>set (players example_revealing). holeCards q \<noteq> []
                          \<longrightarrow> best_strength (doorCards p @ revealedHoleCards p)
                                \<le> best_strength (doorCards q @ revealedHoleCards q)))
                  (players example_revealing))
        \<and> waitingForPlayers s' = [0]"
    using startRevealRound_weakest [OF h1 h2] holders by auto
  with h1 l2 show ?thesis
    by (intro conjI)
qed

text \<open>
  C3, as stated, fails: \<open>short_handed_showdown\<close> is a state in phase showdown with one
  player, and \<open>determineWinner\<close> raises on it, because the player has four cards.
\<close>

theorem determineWinner_raises_counterexample:
  "phase short_handed_showdown = Showdown \<and> players short_handed_showdown \<noteq> []
   \<and> determineWinner short_handed_showdown = Inl TooFewCards"
  by (simp add: short_handed_showdown_def determineWinner_def getFinalStrength_def
      getAllCards_def findBestHand_def)

text \<open>
  C3, amended. In phase showdown, with at least one player and at least five cards for
  every player, \<open>determineWinner\<close> returns a finished state whose winners are exactly the
  players of greatest strength over all their cards, ties included, in seat order.
\<close>

theorem determineWinner_strongest:
  assumes "phase s = Showdown" "players s \<noteq> []"
    and "\<forall>p\<in>set (players s). 5 \<le> length (doorCards p @ revealedHoleCards p @ holeCards p)"
  shows "\<exists>s'. determineWinner s = Inr s' \<and> phase s' = Finished \<and> players s' = players s
     \<and> winner s' =
          Some (filter (\<lambda>p. \<forall>q\<in>set (players s).
                    best_strength (doorCards q @ revealedHoleCards q @ holeCards q)
                      \<le> best_strength (doorCards p @ revealedHoleCards p @ holeCards p))
                  (players s))"
proof -
  have "\<forall>p\<in>set (players s). \<exists>h. getFinalStrength p = Inr (Some h)
      \<and> best_strength (doorCards p @ revealedHoleCards p @ holeCards p) = strength h"
    using assms(3) findBestHand_strength
    by (auto simp: getFinalStrength_def getAllCards_def)
  then obtain G where G: "\<forall>p\<in>set (players s). getFinalStrength p = Inr (Some (G p))
      \<and> best_strength (doorCards p @ revealedHoleCards p @ holeCards p) = strength (G p)"
    by (metis bchoice)
  then have g: "\<forall>p\<in>set (players s). getFinalStrength p = Inr (Some (G p))"
    by blast
  have "filter (\<lambda>p. \<forall>q\<in>set (players s). strength (G q) \<le> strength (G p)) (players s)
    = filter (\<lambda>p. \<forall>q\<in>set (players s).
                    best_strength (doorCards q @ revealedHoleCards q @ holeCards q)
                      \<le> best_strength (doorCards p @ revealedHoleCards p @ holeCards p))
                  (players s)"
    using G by (intro filter_cong) auto
  then show ?thesis
    using determineWinner_value [OF assms(1,2) g] by simp
qed

theorem determineWinner_strongest_witness:
  "phase example_showdown = Showdown \<and> players example_showdown \<noteq> []
   \<and> list_all (\<lambda>p. 5 \<le> length (doorCards p @ revealedHoleCards p @ holeCards p))
        (players example_showdown)
   \<and> (\<exists>s'. determineWinner example_showdown = Inr s' \<and> phase s' = Finished
        \<and> winner s' =
          Some (filter (\<lambda>p. \<forall>q\<in>set (players example_showdown).
                    best_strength (doorCards q @ revealedHoleCards q @ holeCards q)
                      \<le> best_strength (doorCards p @ revealedHoleCards p @ holeCards p))
                  (players example_showdown))
        \<and> map player_id (the (winner s')) = [1])"
proof -
  have h1: "phase example_showdown = Showdown"
    by (simp add: example_showdown_def)
  have h2: "players example_showdown \<noteq> []"
    by (simp add: example_showdown_def)
  have l3: "list_all (\<lambda>p. 5 \<le> length (doorCards p @ revealedHoleCards p @ holeCards p))
        (players example_showdown)"
    by (simp add: example_showdown_def)
  then have h3: "\<forall>p\<in>set (players example_showdown).
         5 \<le> length (doorCards p @ revealedHoleCards p @ holeCards p)"
    by (simp only: list_all_iff)
  obtain s' where s': "determineWinner example_showdown = Inr s'" "phase s' = Finished"
    "winner s' =
          Some (filter (\<lambda>p. \<forall>q\<in>set (players example_showdown).
                    best_strength (doorCards q @ revealedHoleCards q @ holeCards q)
                      \<le> best_strength (doorCards p @ revealedHoleCards p @ holeCards p))
                  (players example_showdown))"
    using determineWinner_strongest [OF h1 h2 h3] by blast
  have "determineWinner example_showdown =
      Inr (example_showdown\<lparr>phase := Finished, winner := Some [players example_showdown ! 1]\<rparr>)"
    by code_simp
  with s'(1) have "winner s' = Some [players example_showdown ! 1]"
    by auto
  moreover have "player_id (players example_showdown ! 1) = 1"
    by (simp add: example_showdown_def)
  ultimately have "map player_id (the (winner s')) = [1]"
    by simp
  with s' have "\<exists>s'. determineWinner example_showdown = Inr s' \<and> phase s' = Finished
        \<and> winner s' =
          Some (filter (\<lambda>p. \<forall>q\<in>set (players example_showdown).
                    best_strength (doorCards q @ revealedHoleCards q @ holeCards q)
                      \<le> best_strength (doorCards p @ revealedHoleCards p @ holeCards p))
                  (players example_showdown))
        \<and> map player_id (the (winner s')) = [1]"
    by (intro exI [of _ s']) simp
  with h1 h2 l3 show ?thesis
    by (intro conjI)
qed

lemma findIndex_None: "findIndex P xs = None \<longleftrightarrow> (\<forall>x\<in>set xs. \<not> P x)"
  by (induction xs) auto

lemma findIndex_Some:
  "findIndex P xs = Some i \<Longrightarrow> i < length xs \<and> P (xs ! i) \<and> find P xs = Some (xs ! i)
     \<and> (\<forall>j<i. \<not> P (xs ! j))"
proof (induction xs arbitrary: i)
  case Nil
  then show ?case by simp
next
  case (Cons x xs)
  show ?case
  proof (cases "P x")
    case True
    with Cons.prems show ?thesis by simp
  next
    case False
    with Cons.prems obtain j where j: "findIndex P xs = Some j" "i = Suc j"
      by auto
    with Cons.IH [OF j(1)] False show ?thesis
      by (auto simp: less_Suc_eq_0_disj)
  qed
qed

text \<open>
  C7. When the phase is not revealing, or the player is not waited for, or no player has
  the id, or the card id is not among the hole cards of the player with this id (the
  first such player, as \<open>findIndex\<close> finds it), \<open>revealSelectedCard\<close> returns the state
  as it is: it neither changes it nor raises.
\<close>

theorem revealSelectedCard_noop:
  assumes "phase s \<noteq> Revealing \<or> playerId \<notin> set (waitingForPlayers s)
    \<or> (\<forall>p\<in>set (players s). player_id p \<noteq> playerId)
    \<or> (\<forall>p. find (\<lambda>p. player_id p = playerId) (players s) = Some p
           \<longrightarrow> cardId \<notin> card_id ` set (holeCards p))"
  shows "revealSelectedCard s playerId cardId = Inr s"
proof (cases "findIndex (\<lambda>p. player_id p = playerId) (players s)")
  case None
  then show ?thesis
    by (simp add: revealSelectedCard_def)
next
  case (Some i)
  note i = findIndex_Some [OF Some]
  have a: "at (players s) i = Inr (players s ! i)"
    using i by (simp add: at_Inr)
  have "\<not> (\<forall>p\<in>set (players s). player_id p \<noteq> playerId)"
    using Some by (simp add: findIndex_None [symmetric])
  with assms consider "phase s \<noteq> Revealing" | "playerId \<notin> set (waitingForPlayers s)"
    | "cardId \<notin> card_id ` set (holeCards (players s ! i))"
    using i by auto
  then show ?thesis
  proof cases
    case 1
    then show ?thesis by (simp add: revealSelectedCard_def)
  next
    case 2
    then show ?thesis by (simp add: revealSelectedCard_def)
  next
    case 3
    then have "findIndex (\<lambda>c. card_id c = cardId) (holeCards (players s ! i)) = None"
      by (auto simp: findIndex_None)
    then show ?thesis
      by (simp add: revealSelectedCard_def Some a)
  qed
qed

theorem revealSelectedCard_noop_witness:
  "0 \<notin> set (waitingForPlayers example_revealing)
   \<and> revealSelectedCard example_revealing 0 ''KD'' = Inr example_revealing
   \<and> find (\<lambda>p. player_id p = 0) (players (example_revealing\<lparr>waitingForPlayers := [0]\<rparr>))
        = Some (players example_revealing ! 0)
   \<and> ''7C'' \<notin> card_id ` set (holeCards (players example_revealing ! 0))
   \<and> revealSelectedCard (example_revealing\<lparr>waitingForPlayers := [0]\<rparr>) 0 ''7C''
        = Inr (example_revealing\<lparr>waitingForPlayers := [0]\<rparr>)"
proof -
  have w1: "0 \<notin> set (waitingForPlayers example_revealing)"
    by (simp add: example_revealing_def)
  have f2: "find (\<lambda>p. player_id p = 0) (players (example_revealing\<lparr>waitingForPlayers := [0]\<rparr>))
        = Some (players example_revealing ! 0)"
    and c2: "''7C'' \<notin> card_id ` set (holeCards (players example_revealing ! 0))"
    by (simp_all add: example_revealing_def)
  have h2: "phase (example_revealing\<lparr>waitingForPlayers := [0]\<rparr>) \<noteq> Revealing
      \<or> 0 \<notin> set (waitingForPlayers (example_revealing\<lparr>waitingForPlayers := [0]\<rparr>))
      \<or> (\<forall>p\<in>set (players (example_revealing\<lparr>waitingForPlayers := [0]\<rparr>)). player_id p \<noteq> 0)
      \<or> (\<forall>p. find (\<lambda>p. player_id p = 0) (players (example_revealing\<lparr>waitingForPlayers := [0]\<rparr>)) = Some p
           \<longrightarrow> ''7C'' \<notin> card_id ` set (holeCards p))"
    using f2 c2 by simp
  have "revealSelectedCard example_revealing 0 ''KD'' = Inr example_revealing"
    using w1 by (intro revealSelectedCard_noop) simp
  moreover have "revealSelectedCard (example_revealing\<lparr>waitingForPlayers := [0]\<rparr>) 0 ''7C''
        = Inr (example_revealing\<lparr>waitingForPlayers := [0]\<rparr>)"
    using h2 by (rule revealSelectedCard_noop)
  ultimately show ?thesis
    using w1 f2 c2 by (intro conjI)
qed

section \<open>The reveal rounds end\<close>

lemma sum_list_strict:
  fixes f g :: "'a \<Rightarrow> nat"
  assumes "\<forall>x\<in>set xs. f x \<le> g x" "\<exists>x\<in>set xs. f x < g x"
  shows "sum_list (map f xs) < sum_list (map g xs)"
  using assms
proof (induction xs)
  case Nil
  then show ?case by simp
next
  case (Cons x xs)
  have le: "sum_list (map f xs) \<le> sum_list (map g xs)"
    using Cons.prems(1) by (intro sum_list_mono) simp
  show ?case
  proof (cases "f x < g x")
    case True
    with le show ?thesis by simp
  next
    case False
    then have "\<exists>x\<in>set xs. f x < g x" "f x \<le> g x"
      using Cons.prems by auto
    with Cons.IH Cons.prems(1) show ?thesis
      by (simp add: add_le_less_mono)
  qed
qed

lemma reveal_first_cases:
  "fst (reveal_first w p) = p \<and> (holeCards p = [] \<or> \<not> list_ex (\<lambda>wp. player_id wp = player_id p) w)
   \<or> (\<exists>c rest. holeCards p = c # rest \<and> list_ex (\<lambda>wp. player_id wp = player_id p) w
        \<and> fst (reveal_first w p) = p\<lparr>holeCards := rest, revealedHoleCards := revealedHoleCards p @ [c]\<rparr>)"
  by (cases "holeCards p") (simp_all add: reveal_first_def)

lemma reveal_first_hole_le: "length (holeCards (fst (reveal_first w p))) \<le> length (holeCards p)"
  using reveal_first_cases [of w p] by auto

lemma reveal_first_hole_less:
  "p \<in> set w \<Longrightarrow> holeCards p \<noteq> [] \<Longrightarrow>
     length (holeCards (fst (reveal_first w p))) < length (holeCards p)"
  using reveal_first_cases [of w p] by (auto simp: list_ex_iff)

lemma reveal_first_door: "doorCards (fst (reveal_first w p)) = doorCards p"
  using reveal_first_cases [of w p] by auto

lemma processRevealRound_cases:
  assumes "phase s = Revealing" "processRevealRound s = Inr t"
  obtains (stop) "\<forall>p\<in>set (players s). holeCards p = []" "t = s\<lparr>phase := Showdown\<rparr>"
  | (reveal) w where "findWeakestPlayers (players s) = Inr w" "w \<noteq> []"
      "players t = map (\<lambda>p. fst (reveal_first w p)) (players s)"
      "phase t = (if list_all (\<lambda>p. length (holeCards p) = 0) (players t)
                  then Showdown else Revealing)"
proof -
  obtain w where w: "findWeakestPlayers (players s) = Inr w"
    using assms by (auto simp: processRevealRound_def bindE_eq_Inr)
  show ?thesis
  proof (cases "w = []")
    case True
    then have "\<forall>p\<in>set (players s). holeCards p = []"
      using findWeakestPlayers_holders(2) [OF w] by simp
    moreover have "t = s\<lparr>phase := Showdown\<rparr>"
      using assms True by (simp add: processRevealRound_def w)
    ultimately show ?thesis
      by (rule stop)
  next
    case False
    then have "players t = map (\<lambda>p. fst (reveal_first w p)) (players s)
      \<and> phase t = (if list_all (\<lambda>p. length (holeCards p) = 0) (players t)
                  then Showdown else Revealing)"
      using assms by (auto simp: processRevealRound_def w Let_def)
    with w False show ?thesis
      by (intro reveal [of w]) simp_all
  qed
qed

lemma processRevealRound_decreases:
  assumes "phase s = Revealing" "processRevealRound s = Inr t"
  shows "(\<forall>p\<in>set (players s). holeCards p = []) \<and> phase t = Showdown \<and> players t = players s
     \<or> total_hole t < total_hole s"
  using assms
proof (cases rule: processRevealRound_cases)
  case stop
  then show ?thesis by simp
next
  case (reveal w)
  obtain p where p: "p \<in> set w"
    using reveal(2) by (cases w) auto
  then have "p \<in> set (players s)" "holeCards p \<noteq> []"
    using findWeakestPlayers_holders(1) [OF reveal(1)] by auto
  then have "\<exists>p\<in>set (players s).
      length (holeCards (fst (reveal_first w p))) < length (holeCards p)"
    using reveal_first_hole_less [OF p] by blast
  then have "sum_list (map (\<lambda>p. length (holeCards (fst (reveal_first w p)))) (players s))
     < sum_list (map (\<lambda>p. length (holeCards p)) (players s))"
    by (intro sum_list_strict) (simp_all add: reveal_first_hole_le)
  then have "total_hole t < total_hole s"
    by (simp add: total_hole_def reveal(3) comp_def)
  then show ?thesis by simp
qed

termination reveal_rounds
proof (relation "measure (\<lambda>s. if phase s = Revealing then Suc (total_hole s) else 0)")
  show "wf (measure (\<lambda>s. if phase s = Revealing then Suc (total_hole s) else 0))"
    by simp
next
  fix state t
  assume "phase state = Revealing" "processRevealRound state = Inr t"
  then show "(t, state) \<in> measure (\<lambda>s. if phase s = Revealing then Suc (total_hole s) else 0)"
    using processRevealRound_decreases [of state t] by auto
qed

section \<open>A full game\<close>

lemma getCurrentStrength_ready:
  assumes "5 \<le> length (doorCards p)"
  shows "\<exists>h. getCurrentStrength p = Inr (Some h)"
  using findBestHand_strength [of "doorCards p @ revealedHoleCards p"] assms
  by (auto simp: getCurrentStrength_def getRevealedCards_def)

lemma findWeakestPlayers_ready:
  assumes "list_all (\<lambda>p. 5 \<le> length (doorCards p)) ps"
  shows "\<exists>w. findWeakestPlayers ps = Inr w"
proof -
  have "\<forall>p\<in>set ps. \<exists>h. getCurrentStrength p = Inr (Some h)"
    using assms getCurrentStrength_ready by (auto simp: list_all_iff)
  then obtain G where "\<forall>p\<in>set ps. getCurrentStrength p = Inr (Some (G p))"
    by (metis bchoice)
  then show ?thesis
    using findWeakestPlayers_value [of ps G] by simp
qed

lemma processRevealRound_ready:
  assumes "ready s" "phase s = Revealing"
  shows "\<exists>t. processRevealRound s = Inr t \<and> ready t \<and> (phase t = Showdown \<or> phase t = Revealing)"
proof -
  obtain w where w: "findWeakestPlayers (players s) = Inr w"
    using findWeakestPlayers_ready assms(1) unfolding ready_def by blast
  have "\<exists>t. processRevealRound s = Inr t"
    using assms(2) by (simp add: processRevealRound_def w Let_def)
  then obtain t where t: "processRevealRound s = Inr t"
    by blast
  from assms(2) t show ?thesis
  proof (cases rule: processRevealRound_cases)
    case stop
    then show ?thesis
      using t assms(1) by (simp add: ready_def)
  next
    case (reveal w')
    have "ready t"
      using assms(1) unfolding ready_def reveal(3)
      by (simp add: list_all_iff reveal_first_door)
    then show ?thesis
      using t reveal(4) by auto
  qed
qed

lemma reveal_rounds_ready:
  assumes "ready s" "phase s = Revealing \<or> phase s = Showdown"
  shows "\<exists>t. reveal_rounds s = Inr t \<and> ready t \<and> phase t = Showdown"
  using assms
proof (induction s rule: reveal_rounds.induct)
  case (1 state)
  show ?case
  proof (cases "phase state = Revealing")
    case False
    with "1.prems" show ?thesis
      by (subst reveal_rounds.simps) simp
  next
    case True
    obtain t where t: "processRevealRound state = Inr t" "ready t"
      "phase t = Showdown \<or> phase t = Revealing"
      using processRevealRound_ready [OF "1.prems"(1) True] by blast
    obtain u where "reveal_rounds t = Inr u" "ready u" "phase u = Showdown"
      using "1.IH" [OF True t(1) t(2)] t(3) by blast
    then show ?thesis
      using True t(1) by (subst reveal_rounds.simps) simp
  qed
qed

lemma length_slice: "b \<le> length xs \<Longrightarrow> length (slice xs a b) = b - a"
  by (simp add: slice_def)

lemma deal_loop_ready:
  assumes "5 \<le> cfg_doorCards pc" "cfg_doorCards pc + cfg_holeCards pc \<le> 10"
    "5 \<le> cfg_doorCards nc" "cfg_doorCards nc + cfg_holeCards nc \<le> 10"
    "ci + 10 * length names \<le> length deck"
    "list_all (\<lambda>p. 5 \<le> length (doorCards p)) ps"
  shows "list_all (\<lambda>p. 5 \<le> length (doorCards p)) (fst (deal_loop deck pc nc names i ci ps))
    \<and> length (fst (deal_loop deck pc nc names i ci ps)) = length ps + length names"
  using assms(5,6)
proof (induction names arbitrary: i ci ps)
  case Nil
  then show ?case by simp
next
  case (Cons nm names)
  define config where "config = (if i = 0 then pc else nc)"
  have c: "5 \<le> cfg_doorCards config" "cfg_doorCards config + cfg_holeCards config \<le> 10"
    using assms(1-4) by (simp_all add: config_def)
  define door where "door = slice deck ci (ci + cfg_doorCards config)"
  define hole where "hole = slice deck (ci + cfg_doorCards config)
      (ci + cfg_doorCards config + cfg_holeCards config)"
  define p where "p = \<lparr>player_id = int i, name = nm, doorCards = door, holeCards = hole,
                   revealedHoleCards = []\<rparr>"
  have "ci + cfg_doorCards config \<le> length deck"
    using Cons.prems(1) c by simp
  then have "5 \<le> length door"
    using c(1) by (simp add: door_def length_slice)
  then have ps: "list_all (\<lambda>p. 5 \<le> length (doorCards p)) (ps @ [p])"
    using Cons.prems(2) by (simp add: p_def)
  have ci: "ci + cfg_doorCards config + cfg_holeCards config + 10 * length names \<le> length deck"
    using Cons.prems(1) c(2) by simp
  have "deal_loop deck pc nc (nm # names) i ci ps =
      deal_loop deck pc nc names (i + 1) (ci + cfg_doorCards config + cfg_holeCards config)
        (ps @ [p])"
    by (simp add: Let_def config_def door_def hole_def p_def)
  then show ?case
    using Cons.IH [OF ci ps, of "i + 1"] by simp
qed

lemma initializeGame_ready:
  assumes "52 \<le> length deck" "2 \<le> length names" "length names \<le> 5"
  shows "\<exists>s. initializeGame deck names d = Inr s \<and> ready s \<and> phase s = Revealing
    \<and> length (players s) = length names"
proof -
  have cfg: "5 \<le> cfg_doorCards (DIFFICULTY_CONFIGS x)"
    "cfg_doorCards (DIFFICULTY_CONFIGS x) + cfg_holeCards (DIFFICULTY_CONFIGS x) \<le> 10" for x
    by (cases x; simp)+
  have "0 + 10 * length names \<le> length deck"
    using assms by simp
  then have dl: "list_all (\<lambda>p. 5 \<le> length (doorCards p))
        (fst (deal_loop deck (DIFFICULTY_CONFIGS d) (DIFFICULTY_CONFIGS Normal) names 0 0 []))
    \<and> length (fst (deal_loop deck (DIFFICULTY_CONFIGS d) (DIFFICULTY_CONFIGS Normal) names 0 0 []))
       = length names"
    using deal_loop_ready [OF cfg cfg, of 0 names deck "[]" d Normal 0] by simp
  obtain ps ci where r: "deal_loop deck (DIFFICULTY_CONFIGS d) (DIFFICULTY_CONFIGS Normal) names 0 0 []
      = (ps, ci)"
    by (cases "deal_loop deck (DIFFICULTY_CONFIGS d) (DIFFICULTY_CONFIGS Normal) names 0 0 []")
  have "ps \<noteq> []"
    using dl r assms(2) by auto
  then show ?thesis
    using assms(2,3) dl r by (simp add: initializeGame_def ready_def)
qed

lemma determineWinner_ready:
  assumes "ready s" "phase s = Showdown"
  shows "\<exists>t w. determineWinner s = Inr t \<and> phase t = Finished \<and> winner t = Some w \<and> w \<noteq> []"
proof -
  have ne: "players s \<noteq> []"
    using assms(1) by (simp add: ready_def)
  have "\<exists>h. getFinalStrength p = Inr (Some h)" if "p \<in> set (players s)" for p
  proof -
    have "5 \<le> length (doorCards p @ revealedHoleCards p @ holeCards p)"
      using assms(1) that by (auto simp: ready_def list_all_iff intro: trans_le_add1)
    then show ?thesis
      using findBestHand_strength [of "doorCards p @ revealedHoleCards p @ holeCards p"]
      by (auto simp: getFinalStrength_def getAllCards_def)
  qed
  then obtain G where g: "\<forall>p\<in>set (players s). getFinalStrength p = Inr (Some (G p))"
    by (metis bchoice)
  obtain p where "p \<in> set (players s)"
    "\<forall>q\<in>set (players s). strength (G q) \<le> strength (G p)"
    using ex_strongest [OF ne, of "\<lambda>p. strength (G p)"] by blast
  then have "filter (\<lambda>p. \<forall>q\<in>set (players s). strength (G q) \<le> strength (G p)) (players s)
      \<noteq> []"
    by (auto simp: filter_empty_conv)
  then show ?thesis
    using determineWinner_value [OF assms(2) ne g] by simp
qed

lemma deal_loop_keeps: "set ps \<subseteq> set (fst (deal_loop deck pc nc names i ci ps))"
proof (induction names arbitrary: i ci ps)
  case Nil
  then show ?case by simp
next
  case (Cons nm names)
  show ?case
    using Cons [of "ps @ [p]" for p] by (simp add: Let_def subset_iff)
qed

lemma deal_loop_second:
  assumes "0 < i" "0 < cfg_holeCards nc" "ci + cfg_doorCards nc + cfg_holeCards nc \<le> length deck"
  shows "\<exists>p\<in>set (fst (deal_loop deck pc nc (nm # names) i ci ps)). holeCards p \<noteq> []"
proof -
  define hole where "hole = slice deck (ci + cfg_doorCards nc) (ci + cfg_doorCards nc + cfg_holeCards nc)"
  define p where "p = \<lparr>player_id = int i, name = nm,
      doorCards = slice deck ci (ci + cfg_doorCards nc), holeCards = hole,
      revealedHoleCards = []\<rparr>"
  have "length hole = cfg_holeCards nc"
    using assms(3) by (simp add: hole_def length_slice)
  then have "holeCards p \<noteq> []"
    using assms(2) by (auto simp: p_def)
  moreover have "deal_loop deck pc nc (nm # names) i ci ps =
      deal_loop deck pc nc names (i + 1) (ci + cfg_doorCards nc + cfg_holeCards nc) (ps @ [p])"
    using assms(1) by (simp add: Let_def p_def hole_def)
  moreover have "p \<in> set (fst (deal_loop deck pc nc names (i + 1)
      (ci + cfg_doorCards nc + cfg_holeCards nc) (ps @ [p])))"
    using deal_loop_keeps [of "ps @ [p]"] by auto
  ultimately show ?thesis
    by auto
qed

lemma initializeGame_live:
  assumes "52 \<le> length deck" "2 \<le> length names" "length names \<le> 5"
  shows "\<exists>s. initializeGame deck names d = Inr s \<and> live s \<and> phase s = Revealing"
proof -
  obtain s where s: "initializeGame deck names d = Inr s" "ready s" "phase s = Revealing"
    using initializeGame_ready [OF assms] by blast
  obtain n0 n1 rest where names: "names = n0 # n1 # rest"
    using assms(2) by (cases names; cases "tl names") auto
  have cfg: "cfg_doorCards (DIFFICULTY_CONFIGS x) + cfg_holeCards (DIFFICULTY_CONFIGS x) \<le> 10" for x
    by (cases x) simp_all
  define pc where "pc = DIFFICULTY_CONFIGS d"
  define p0 where "p0 = \<lparr>player_id = int 0, name = n0,
      doorCards = slice deck 0 (0 + cfg_doorCards pc),
      holeCards = slice deck (0 + cfg_doorCards pc) (0 + cfg_doorCards pc + cfg_holeCards pc),
      revealedHoleCards = []\<rparr>"
  have first: "deal_loop deck pc (DIFFICULTY_CONFIGS Normal) names 0 0 [] =
      deal_loop deck pc (DIFFICULTY_CONFIGS Normal) (n1 # rest) 1
        (cfg_doorCards pc + cfg_holeCards pc) [p0]"
    by (simp add: names Let_def p0_def)
  have "cfg_doorCards pc + cfg_holeCards pc + cfg_doorCards (DIFFICULTY_CONFIGS Normal)
      + cfg_holeCards (DIFFICULTY_CONFIGS Normal) \<le> length deck"
    using cfg [of d] assms(1) by (simp add: pc_def)
  then have "\<exists>p\<in>set (fst (deal_loop deck pc (DIFFICULTY_CONFIGS Normal) (n1 # rest) 1
        (cfg_doorCards pc + cfg_holeCards pc) [p0])). holeCards p \<noteq> []"
    by (intro deal_loop_second) simp_all
  moreover have "players s = fst (deal_loop deck pc (DIFFICULTY_CONFIGS Normal) names 0 0 [])"
    using s(1) by (auto simp: initializeGame_def Let_def pc_def split: if_splits prod.splits)
  ultimately have "\<exists>p\<in>set (players s). holeCards p \<noteq> []"
    using first by simp
  then show ?thesis
    using s by (auto simp: live_def)
qed

lemma processRevealRound_live:
  assumes "live s" "phase s = Revealing"
  shows "\<exists>t. processRevealRound s = Inr t \<and> live t \<and> total_hole t < total_hole s"
proof -
  obtain t where t: "processRevealRound s = Inr t" "ready t"
    using processRevealRound_ready [of s] assms by (auto simp: live_def)
  from assms(2) t(1) have "live t"
  proof (cases rule: processRevealRound_cases)
    case stop
    then show ?thesis
      using t(2) by (simp add: live_def)
  next
    case (reveal w)
    then show ?thesis
      using t(2) by (auto simp: live_def list_all_iff split: if_splits)
  qed
  moreover have "total_hole t < total_hole s"
    using processRevealRound_decreases [OF assms(2) t(1)] assms by (auto simp: live_def)
  ultimately show ?thesis
    using t(1) by blast
qed

lemma rounds_live:
  "live s \<Longrightarrow> rounds n s = Inr t \<Longrightarrow> live t"
proof (induction n arbitrary: s)
  case 0
  then show ?case by simp
next
  case (Suc n)
  then obtain u where u: "processRevealRound s = Inr u" "rounds n u = Inr t"
    by (auto simp: bindE_eq_Inr)
  have "live u"
  proof (cases "phase s = Revealing")
    case True
    then show ?thesis
      using processRevealRound_live [OF Suc.prems(1)] u(1) by auto
  next
    case False
    then have "u = s"
      using u(1) by (simp add: processRevealRound_def)
    then show ?thesis
      using Suc.prems(1) by simp
  qed
  then show ?case
    using Suc.IH u(2) by blast
qed

text \<open>
  C4. From the deal of a deck to two to five players, \<open>runFullGame\<close>, whose loop is a
  total function, returns a finished state with at least one winner; and every reveal
  round of the game, that is \<open>processRevealRound\<close> in a state in phase revealing that
  rounds have led to, strictly decreases the total number of hole cards.
\<close>

theorem runFullGame_finishes:
  assumes "is_deck deck" "2 \<le> length names" "length names \<le> 5"
  shows "\<exists>s0 t w. initializeGame deck names d = Inr s0 \<and> runFullGame s0 = Inr t
      \<and> phase t = Finished \<and> winner t = Some w \<and> w \<noteq> []
      \<and> (\<forall>n s. rounds n s0 = Inr s \<and> phase s = Revealing \<longrightarrow>
            (\<exists>s'. processRevealRound s = Inr s' \<and> total_hole s' < total_hole s))"
proof -
  have "52 \<le> length deck"
    using assms(1) by (simp add: is_deck_def)
  then obtain s0 where s0: "initializeGame deck names d = Inr s0" "live s0" "phase s0 = Revealing"
    using initializeGame_live [OF _ assms(2,3)] by blast
  then have r: "ready s0"
    by (simp add: live_def)
  obtain u where u: "reveal_rounds s0 = Inr u" "ready u" "phase u = Showdown"
    using reveal_rounds_ready [OF r] s0(3) by blast
  obtain t w where t: "determineWinner u = Inr t" "phase t = Finished" "winner t = Some w" "w \<noteq> []"
    using determineWinner_ready [OF u(2,3)] by blast
  then have run: "runFullGame s0 = Inr t"
    using u(1,3) by (simp add: runFullGame_def)
  have "\<exists>s'. processRevealRound s = Inr s' \<and> total_hole s' < total_hole s"
    if "rounds n s0 = Inr s \<and> phase s = Revealing" for n s
  proof -
    have "live s"
      using rounds_live [OF s0(2)] that by blast
    then show ?thesis
      using processRevealRound_live that by blast
  qed
  with s0(1) run t show ?thesis
    by blast
qed

theorem runFullGame_finishes_witness:
  "is_deck example_deck
   \<and> (\<exists>s0 t w. initializeGame example_deck [''north'', ''south''] Normal = Inr s0
        \<and> runFullGame s0 = Inr t \<and> phase t = Finished \<and> winner t = Some w \<and> w \<noteq> []
        \<and> (\<forall>n s. rounds n s0 = Inr s \<and> phase s = Revealing \<longrightarrow>
              (\<exists>s'. processRevealRound s = Inr s' \<and> total_hole s' < total_hole s)))"
proof -
  have d: "is_deck example_deck"
    by code_simp
  show ?thesis
    using runFullGame_finishes [OF d, of "[''north'', ''south'']" Normal] d by simp
qed

section \<open>The cards of a player\<close>

lemma filter_remove1:
  "distinct (map f xs) \<Longrightarrow> x \<in> set xs \<Longrightarrow> filter (\<lambda>c. f c \<noteq> f x) xs = remove1 x xs"
proof (induction xs)
  case Nil
  then show ?case by simp
next
  case (Cons y ys)
  show ?case
  proof (cases "y = x")
    case True
    then have "f x \<notin> f ` set ys"
      using Cons.prems(1) by simp
    then have "\<forall>c\<in>set ys. f c \<noteq> f x"
      by (metis imageI)
    then have "filter (\<lambda>c. f c \<noteq> f x) ys = ys"
      by (simp add: filter_id_conv)
    with True show ?thesis by simp
  next
    case False
    then have "x \<in> set ys"
      using Cons.prems(2) by simp
    moreover from this have "f y \<noteq> f x"
      using Cons.prems(1) by (metis distinct.simps(2) imageI list.simps(9) set_map)
    ultimately show ?thesis
      using Cons False by simp
  qed
qed

lemma moved_keeps:
  assumes "moved p p'" "distinct (hand_ids p)"
  shows "doorCards p' = doorCards p"
    and "mset (doorCards p' @ holeCards p' @ revealedHoleCards p')
         = mset (doorCards p @ holeCards p @ revealedHoleCards p)"
    and "distinct (hand_ids p')"
proof -
  have m: "doorCards p' = doorCards p \<and> mset (doorCards p' @ holeCards p' @ revealedHoleCards p')
         = mset (doorCards p @ holeCards p @ revealedHoleCards p)"
    using assms(1) by (auto simp: moved_def)
  from m show "doorCards p' = doorCards p"
    by (rule conjunct1)
  from m show e: "mset (doorCards p' @ holeCards p' @ revealedHoleCards p')
         = mset (doorCards p @ holeCards p @ revealedHoleCards p)"
    by (rule conjunct2)
  have "mset (hand_ids p') = mset (hand_ids p)"
    unfolding hand_ids_def using e by (metis mset_map)
  then show "distinct (hand_ids p')"
    using assms(2) by (metis mset_eq_imp_distinct_iff)
qed

lemma startRevealRound_players: "startRevealRound s = Inr s' \<Longrightarrow> players s' = players s"
  by (auto simp: startRevealRound_def bindE_eq_Inr split: if_splits)

lemma determineWinner_players: "determineWinner s = Inr s' \<Longrightarrow> players s' = players s"
  by (auto simp: determineWinner_def bindE_eq_Inr split: if_splits)

lemma reveal_first_moved: "moved p (fst (reveal_first w p))"
  using reveal_first_cases [of w p] by (auto simp: moved_def)

lemma processRevealRound_moved:
  assumes "processRevealRound s = Inr s'"
  shows "length (players s') = length (players s)
    \<and> (\<forall>i<length (players s). moved (players s ! i) (players s' ! i))"
proof (cases "phase s = Revealing")
  case False
  then have "s' = s"
    using assms by (simp add: processRevealRound_def)
  then show ?thesis
    by (simp add: moved_def)
next
  case True
  from True assms show ?thesis
  proof (cases rule: processRevealRound_cases)
    case stop
    then show ?thesis by (simp add: moved_def)
  next
    case (reveal w)
    then show ?thesis by (simp add: reveal_first_moved)
  qed
qed

lemma revealSelectedCard_moved:
  assumes "revealSelectedCard s playerId cardId = Inr s'"
    and "\<forall>p\<in>set (players s). distinct (hand_ids p)"
  shows "length (players s') = length (players s)
    \<and> (\<forall>i<length (players s). moved (players s ! i) (players s' ! i))"
proof (cases "s' = s")
  case True
  then show ?thesis by (simp add: moved_def)
next
  case False
  then obtain i where i: "findIndex (\<lambda>p. player_id p = playerId) (players s) = Some i"
    using assms(1) by (auto simp: revealSelectedCard_def split: if_splits option.splits)
  then have il: "i < length (players s)"
    using findIndex_Some by blast
  define player where "player = players s ! i"
  have a: "at (players s) i = Inr player"
    using il by (simp add: at_Inr player_def)
  obtain j where j: "findIndex (\<lambda>c. card_id c = cardId) (holeCards player) = Some j"
    using assms(1) False i a
    by (auto simp: revealSelectedCard_def split: if_splits option.splits)
  define crd where "crd = holeCards player ! j"
  have jl: "j < length (holeCards player)" and cid: "card_id crd = cardId"
    using findIndex_Some [OF j] by (simp_all add: crd_def)
  have b: "at (holeCards player) j = Inr crd"
    using jl by (simp add: at_Inr crd_def)
  have mem: "crd \<in> set (holeCards player)"
    using jl by (simp add: crd_def)
  have "distinct (hand_ids player)"
    using assms(2) il by (simp add: player_def)
  then have "distinct (map card_id (holeCards player))"
    by (simp add: hand_ids_def)
  then have f: "filter (\<lambda>c. card_id c \<noteq> cardId) (holeCards player) = remove1 crd (holeCards player)"
    using filter_remove1 [of card_id "holeCards player" crd] mem cid by simp
  have ps: "players s' = (players s)[i := player\<lparr>holeCards := remove1 crd (holeCards player),
      revealedHoleCards := revealedHoleCards player @ [crd]\<rparr>]"
    using assms(1) False
    by (auto simp: revealSelectedCard_def i a j b f Let_def split: if_splits)
  have "moved (players s ! k) (players s' ! k)" if "k < length (players s)" for k
  proof (cases "k = i")
    case True
    then show ?thesis
      using mem il by (auto simp: ps moved_def player_def)
  next
    case False
    then show ?thesis
      by (simp add: ps moved_def)
  qed
  then show ?thesis
    by (simp add: ps)
qed

lemma step_moved:
  assumes "step a s = Inr s'" "\<forall>p\<in>set (players s). distinct (hand_ids p)"
  shows "length (players s') = length (players s)
    \<and> (\<forall>i<length (players s). moved (players s ! i) (players s' ! i))"
proof (cases a)
  case StartRevealRound
  then show ?thesis
    using assms(1) startRevealRound_players [of s s'] by (simp add: moved_def)
next
  case (RevealSelectedCard playerId cardId)
  then show ?thesis
    using assms revealSelectedCard_moved [of s playerId cardId s'] by simp
next
  case ProcessRevealRound
  then show ?thesis
    using assms(1) processRevealRound_moved [of s s'] by simp
next
  case DetermineWinner
  then show ?thesis
    using assms(1) determineWinner_players [of s s'] by (simp add: moved_def)
qed

lemma same_deal_ids:
  "same_deal s0 s \<Longrightarrow> \<forall>p\<in>set (players s). distinct (hand_ids p)"
  by (auto simp: same_deal_def in_set_conv_nth)

lemma same_deal_step:
  assumes "same_deal s0 s" "step a s = Inr s'"
  shows "same_deal s0 s'"
proof -
  have m: "length (players s') = length (players s)"
    "\<forall>i<length (players s). moved (players s ! i) (players s' ! i)"
    using step_moved [OF assms(2) same_deal_ids [OF assms(1)]] by simp_all
  have "doorCards (players s' ! i) = doorCards (players s0 ! i)
            \<and> mset (doorCards (players s' ! i) @ holeCards (players s' ! i)
                      @ revealedHoleCards (players s' ! i))
                = mset (doorCards (players s0 ! i) @ holeCards (players s0 ! i)
                      @ revealedHoleCards (players s0 ! i))
            \<and> distinct (hand_ids (players s' ! i))"
    if "i < length (players s')" for i
  proof -
    have i: "i < length (players s)"
      using that m(1) by simp
    then have mv: "moved (players s ! i) (players s' ! i)"
      using m(2) by simp
    have d: "distinct (hand_ids (players s ! i))"
      using assms(1) i by (simp add: same_deal_def)
    note k = moved_keeps [OF mv d]
    have old: "doorCards (players s ! i) = doorCards (players s0 ! i)"
      "mset (doorCards (players s ! i) @ holeCards (players s ! i)
                      @ revealedHoleCards (players s ! i))
                = mset (doorCards (players s0 ! i) @ holeCards (players s0 ! i)
                      @ revealedHoleCards (players s0 ! i))"
      using assms(1) i unfolding same_deal_def by blast+
    show ?thesis
      using k(3) k(1) [unfolded old(1)] k(2) [unfolded old(2)] by (intro conjI)
  qed
  moreover have "length (players s') = length (players s0)"
    using m(1) assms(1) by (simp add: same_deal_def)
  ultimately show ?thesis
    unfolding same_deal_def by blast
qed

lemma same_deal_run:
  "same_deal s0 s1 \<Longrightarrow> run_actions acts s1 = Inr s \<Longrightarrow> same_deal s0 s"
proof (induction acts arbitrary: s1)
  case Nil
  then show ?case by simp
next
  case (Cons a acts)
  then obtain s2 where "step a s1 = Inr s2" "run_actions acts s2 = Inr s"
    by (auto simp: bindE_eq_Inr)
  then show ?case
    using Cons.IH [of s2] same_deal_step [OF Cons.prems(1)] by blast
qed

lemma slice_append:
  assumes "a \<le> b" "b \<le> c"
  shows "slice xs a b @ slice xs b c = slice xs a c"
proof -
  have "take b (take c xs) = take b xs"
    using assms(2) by (simp add: min_def)
  then have t: "take c xs = take b xs @ drop b (take c xs)"
    by (metis append_take_drop_id)
  show ?thesis
  proof (cases "b \<le> length xs")
    case True
    then have "length (take b xs) = b"
      by simp
    then have "drop a (take b xs @ drop b (take c xs)) = drop a (take b xs) @ drop b (take c xs)"
      using assms(1) by simp
    then show ?thesis
      unfolding slice_def using t by simp
  next
    case False
    then have "drop b (take c xs) = []"
      by simp
    then show ?thesis
      unfolding slice_def using t by simp
  qed
qed

lemma distinct_slice: "distinct (map f xs) \<Longrightarrow> distinct (map f (slice xs a b))"
proof -
  assume "distinct (map f xs)"
  then have "distinct (drop a (take b (map f xs)))"
    by simp
  moreover have "map f (drop a (take b xs)) = drop a (take b (map f xs))"
    by (simp add: drop_map take_map)
  ultimately show ?thesis
    by (simp only: slice_def)
qed

lemma deal_loop_distinct:
  assumes "distinct (map card_id deck)" "\<forall>p\<in>set ps. distinct (hand_ids p)"
  shows "\<forall>p\<in>set (fst (deal_loop deck pc nc names i ci ps)). distinct (hand_ids p)"
  using assms(2)
proof (induction names arbitrary: i ci ps)
  case Nil
  then show ?case by simp
next
  case (Cons nm names)
  define config where "config = (if i = 0 then pc else nc)"
  define p where "p = \<lparr>player_id = int i, name = nm,
      doorCards = slice deck ci (ci + cfg_doorCards config),
      holeCards = slice deck (ci + cfg_doorCards config)
        (ci + cfg_doorCards config + cfg_holeCards config),
      revealedHoleCards = []\<rparr>"
  have "doorCards p @ holeCards p @ revealedHoleCards p
      = slice deck ci (ci + cfg_doorCards config + cfg_holeCards config)"
    using slice_append [of ci "ci + cfg_doorCards config"
        "ci + cfg_doorCards config + cfg_holeCards config" deck]
    by (simp add: p_def)
  then have "distinct (hand_ids p)"
    using assms(1) by (simp only: hand_ids_def distinct_slice)
  then have ps: "\<forall>p\<in>set (ps @ [p]). distinct (hand_ids p)"
    using Cons.prems by simp
  have "deal_loop deck pc nc (nm # names) i ci ps =
      deal_loop deck pc nc names (i + 1) (ci + cfg_doorCards config + cfg_holeCards config)
        (ps @ [p])"
    by (simp add: Let_def config_def p_def)
  then show ?case
    using Cons.IH [OF ps] by simp
qed

lemma initializeGame_same_deal:
  assumes "distinct (map card_id deck)" "initializeGame deck names d = Inr s0"
  shows "same_deal s0 s0"
proof -
  have "players s0 = fst (deal_loop deck (DIFFICULTY_CONFIGS d) (DIFFICULTY_CONFIGS Normal) names 0 0 [])"
    using assms(2) by (auto simp: initializeGame_def Let_def split: if_splits prod.splits)
  then have "\<forall>p\<in>set (players s0). distinct (hand_ids p)"
    using deal_loop_distinct [OF assms(1), of "[]"] by simp
  then show ?thesis
    by (simp add: same_deal_def)
qed

text \<open>
  C8. In every state reached from the deal of a deck by the transition functions, every
  player has the door cards it was dealt and, as a multiset, the cards it was dealt, with
  no card twice; and a further transition leaves each player as it is or moves exactly
  one of its hole cards to its revealed hole cards.
\<close>

theorem cards_are_conserved:
  assumes "is_deck deck" "initializeGame deck names d = Inr s0" "run_actions acts s0 = Inr s"
  shows "same_deal s0 s
    \<and> (\<forall>a s'. step a s = Inr s' \<longrightarrow>
          length (players s') = length (players s)
          \<and> (\<forall>i<length (players s). moved (players s ! i) (players s' ! i)))"
proof -
  have "distinct (map card_id deck)"
    using assms(1) by (simp add: is_deck_def)
  then have "same_deal s0 s0"
    using assms(2) by (rule initializeGame_same_deal)
  then have sd: "same_deal s0 s"
    using assms(3) by (rule same_deal_run)
  then have "\<forall>p\<in>set (players s). distinct (hand_ids p)"
    by (rule same_deal_ids)
  then have "length (players s') = length (players s)
          \<and> (\<forall>i<length (players s). moved (players s ! i) (players s' ! i))"
    if "step a s = Inr s'" for a s'
    using step_moved [OF that] by blast
  with sd show ?thesis
    by blast
qed

theorem cards_are_conserved_witness:
  "is_deck example_deck
   \<and> map_sum id (\<lambda>s. map (\<lambda>p. map card_id (holeCards p)) (players s))
        (bindE (initializeGame example_deck [''north'', ''south''] Normal)
           (run_actions [StartRevealRound, RevealSelectedCard 1 ''D5'', ProcessRevealRound]))
       = Inr [[''H7'', ''H8'', ''H9'', ''HT'', ''HJ''], [''D6'', ''D7'', ''D8'']]
   \<and> (\<exists>s0 s. initializeGame example_deck [''north'', ''south''] Normal = Inr s0
        \<and> run_actions [StartRevealRound, RevealSelectedCard 1 ''D5'', ProcessRevealRound] s0
            = Inr s
        \<and> same_deal s0 s
        \<and> (\<forall>a s'. step a s = Inr s' \<longrightarrow>
              length (players s') = length (players s)
              \<and> (\<forall>i<length (players s). moved (players s ! i) (players s' ! i))))"
proof -
  have d: "is_deck example_deck"
    by code_simp
  have v: "map_sum id (\<lambda>s. map (\<lambda>p. map card_id (holeCards p)) (players s))
        (bindE (initializeGame example_deck [''north'', ''south''] Normal)
           (run_actions [StartRevealRound, RevealSelectedCard 1 ''D5'', ProcessRevealRound]))
       = Inr [[''H7'', ''H8'', ''H9'', ''HT'', ''HJ''], [''D6'', ''D7'', ''D8'']]"
    by code_simp
  then obtain s0 s where r: "initializeGame example_deck [''north'', ''south''] Normal = Inr s0"
    "run_actions [StartRevealRound, RevealSelectedCard 1 ''D5'', ProcessRevealRound] s0 = Inr s"
    by (cases "initializeGame example_deck [''north'', ''south''] Normal";
        cases "bindE (initializeGame example_deck [''north'', ''south''] Normal)
           (run_actions [StartRevealRound, RevealSelectedCard 1 ''D5'', ProcessRevealRound])")
      auto
  show ?thesis
    using cards_are_conserved [OF d r] d v r by blast
qed

end
